theory Spec2Isabelle
  imports Main "HOL-Library.Monad_Syntax"
begin

section \<open>The syntax tree handed to the rule\<close>

text \<open>
  The rule \<^verbatim>\<open>no-inline-multiline-types\<close> reads an ESTree/TSESTree syntax tree whose
  nodes are JavaScript objects linked in both directions: children are held in named
  fields, and every node has a \<^verbatim>\<open>parent\<close> field. Several tests of the source compare
  nodes by identity (\<^verbatim>\<open>params.includes(parent)\<close>, \<^verbatim>\<open>parent.returnType === typeAnnotationNode\<close>),
  so the tree is modelled as a store: a node reference is an address, and the tree maps
  every address to the object stored there. A field holding \<^verbatim>\<open>null\<close> or \<^verbatim>\<open>undefined\<close>
  is \<open>None\<close>. Only the fields the rule reads are kept.
\<close>

type_synonym ref = nat

text \<open>
  A JavaScript string is a sequence of UTF-16 code units; \<^verbatim>\<open>charAt\<close>, \<^verbatim>\<open>slice\<close>, the
  regular expression of the rule and the ranges of the nodes all count code units. A code
  unit is a number below \<open>65536\<close>. \<open>js\<close> turns a literal of the theory into such a
  string. The \<^verbatim>\<open>type\<close> of a node is one of the parser's fixed names and stays a literal.
\<close>

type_synonym jsstring = "nat list"

definition js :: "string \<Rightarrow> jsstring" where
  "js s = map of_char s"

record node =
  node_type :: string
  node_parent :: "ref option"
  node_name :: "jsstring option"
  node_id :: "ref option"
  node_key :: "ref option"
  node_params :: "ref list option"
  node_parameter :: "ref option"
  node_returnType :: "ref option"
  node_typeAnnotation :: "ref option"
  node_declaration :: "ref option"
  node_range :: "nat \<times> nat"
  node_loc :: "(nat \<times> nat) \<times> (nat \<times> nat)"

type_synonym ast = "ref \<Rightarrow> node"

text \<open>\<open>node_range\<close> is the pair of character offsets \<^verbatim>\<open>[start, end]\<close>; \<open>node_loc\<close> is
  \<^verbatim>\<open>((start.line, start.column), (end.line, end.column))\<close>.\<close>

definition start_line :: "node \<Rightarrow> nat" where
  "start_line n = fst (fst (node_loc n))"

definition end_line :: "node \<Rightarrow> nat" where
  "end_line n = fst (snd (node_loc n))"

definition single_line :: "node \<Rightarrow> bool" where
  "single_line n = (start_line n = end_line n)"

definition typ_of :: "ast \<Rightarrow> ref \<Rightarrow> string" where
  "typ_of ast r = node_type (ast r)"

text \<open>\<^verbatim>\<open>x.parent && x.parent.type\<close>: the type of the parent, when there is a parent.\<close>

definition parent_type :: "ast \<Rightarrow> ref \<Rightarrow> string option" where
  "parent_type ast r = map_option (typ_of ast) (node_parent (ast r))"

section \<open>toPascalCase\<close>

text \<open>
  \<^verbatim>\<open>String.prototype.toUpperCase\<close> belongs to the host. On a string of one code unit it
  is fixed by Unicode for the ASCII range: the letters \<^verbatim>\<open>a\<close> to \<^verbatim>\<open>z\<close> (97 to 122) go to
  \<^verbatim>\<open>A\<close> to \<^verbatim>\<open>Z\<close>, 32 less, and every other unit below 128 stays. Outside ASCII the
  result is taken from the host's table \<open>U\<close>, a parameter of the model: it may be another
  unit (\<^verbatim>\<open>U+00FC\<close> to \<^verbatim>\<open>U+00DC\<close>), several units (\<^verbatim>\<open>U+00DF\<close> to \<^verbatim>\<open>SS\<close>) or the
  unit itself.
\<close>

definition is_lower :: "nat \<Rightarrow> bool" where
  "is_lower c = (97 \<le> c \<and> c \<le> 122)"

definition toUpperCase :: "(nat \<Rightarrow> jsstring) \<Rightarrow> nat \<Rightarrow> jsstring" where
  "toUpperCase U c = (if is_lower c then [c - 32] else if c < 128 then [c] else U c)"

text \<open>\<^verbatim>\<open>str.replace(/_([a-z])/g, (match, char) => char.toUpperCase())\<close>: a left-to-right
  scan over non-overlapping matches of an underscore (95) and a letter \<^verbatim>\<open>a\<close> to \<^verbatim>\<open>z\<close>.\<close>

fun replace_snake :: "(nat \<Rightarrow> jsstring) \<Rightarrow> jsstring \<Rightarrow> jsstring" where
  "replace_snake U (c # d # cs) =
     (if c = 95 \<and> is_lower d then toUpperCase U d @ replace_snake U cs
      else c # replace_snake U (d # cs))"
| "replace_snake U cs = cs"

text \<open>\<^verbatim>\<open>!str\<close> holds for \<^verbatim>\<open>undefined\<close> and for the empty string.\<close>

definition truthy :: "jsstring option \<Rightarrow> bool" where
  "truthy s = (case s of None \<Rightarrow> False | Some str \<Rightarrow> str \<noteq> [])"

text \<open>\<^verbatim>\<open>str.charAt(0).toUpperCase() + str.slice(1)\<close> after the replacement.\<close>

definition toPascalCase :: "(nat \<Rightarrow> jsstring) \<Rightarrow> jsstring option \<Rightarrow> jsstring" where
  "toPascalCase U s =
     (case s of
        None \<Rightarrow> []
      | Some str \<Rightarrow>
          if str = [] then []
          else (case replace_snake U str of [] \<Rightarrow> [] | c # cs \<Rightarrow> toUpperCase U c @ cs))"

section \<open>findInsertionPointAncestor\<close>

definition targetAncestorTypes :: "string set" where
  "targetAncestorTypes =
     {''VariableDeclaration'', ''FunctionDeclaration'', ''ClassDeclaration'',
      ''TSInterfaceDeclaration'', ''TSTypeAliasDeclaration''}"

definition validParentContextTypes :: "string set" where
  "validParentContextTypes =
     {''Program'', ''BlockStatement'', ''ExportNamedDeclaration'', ''ExportDefaultDeclaration''}"

definition is_export :: "string \<Rightarrow> bool" where
  "is_export t = (t = ''ExportNamedDeclaration'' \<or> t = ''ExportDefaultDeclaration'')"

text \<open>\<^verbatim>\<open>currentNode.declaration && targetAncestorTypes.has(currentNode.declaration.type)\<close>\<close>

definition declaration_is_target :: "ast \<Rightarrow> ref \<Rightarrow> bool" where
  "declaration_is_target ast r =
     (case node_declaration (ast r) of
        None \<Rightarrow> False
      | Some d \<Rightarrow> typ_of ast d \<in> targetAncestorTypes)"

text \<open>
  The \<^verbatim>\<open>while (currentNode.parent)\<close> loop. Over an arbitrary store the parent links may
  form a cycle and the loop may run forever, so the loop is a partial function: the outer
  \<open>None\<close> is "does not return", \<open>Some None\<close> is the \<^verbatim>\<open>null\<close> the source returns after the
  loop, \<open>Some (Some r)\<close> is a returned node. The two \<^verbatim>\<open>console.warn\<close> calls write to the
  console only and are left out.
\<close>

partial_function (option) ancestor_loop :: "ast \<Rightarrow> ref \<Rightarrow> ref \<Rightarrow> ref option option" where
  "ancestor_loop ast startNode currentNode =
     (case node_parent (ast currentNode) of
        None \<Rightarrow> Some None
      | Some p \<Rightarrow>
          if typ_of ast currentNode \<in> targetAncestorTypes \<and> typ_of ast p \<in> validParentContextTypes
          then (if is_export (typ_of ast p) then Some (Some p) else Some (Some currentNode))
          else if is_export (typ_of ast currentNode) \<and> declaration_is_target ast currentNode
          then Some (Some currentNode)
          else if typ_of ast p = ''Program''
          then (if typ_of ast startNode \<in> targetAncestorTypes then Some (Some startNode)
                else Some None)
          else ancestor_loop ast startNode p)"

declare ancestor_loop.simps [code]

definition findInsertionPointAncestor :: "ast \<Rightarrow> ref \<Rightarrow> ref option option" where
  "findInsertionPointAncestor ast startNode = ancestor_loop ast startNode startNode"

section \<open>deriveTypeName\<close>

datatype js_error = TypeError

definition is_function :: "string \<Rightarrow> bool" where
  "is_function t =
     (t = ''FunctionDeclaration'' \<or> t = ''FunctionExpression'' \<or> t = ''ArrowFunctionExpression'')"

text \<open>\<^verbatim>\<open>x.id?.name\<close>\<close>

definition id_name :: "ast \<Rightarrow> ref \<Rightarrow> jsstring option" where
  "id_name ast r = (case node_id (ast r) of None \<Rightarrow> None | Some i \<Rightarrow> node_name (ast i))"

text \<open>
  Each \<^verbatim>\<open>if\<close> of the \<^verbatim>\<open>try\<close> block is one function of the annotation \<open>a\<close> and its parent
  \<open>p\<close>. \<open>Inr (Some s)\<close> is \<^verbatim>\<open>return s\<close>, \<open>Inr None\<close> is falling through to the next
  \<^verbatim>\<open>if\<close>, \<open>Inl TypeError\<close> is the exception of reading a property of \<^verbatim>\<open>null\<close>.
\<close>

definition case1 ::
  "(nat \<Rightarrow> jsstring) \<Rightarrow> ast \<Rightarrow> ref \<Rightarrow> ref \<Rightarrow> js_error + jsstring option" where
  "case1 U ast a p =
     (if typ_of ast p = ''Identifier'' \<and> parent_type ast p = Some ''VariableDeclarator''
      then Inr (Some (toPascalCase U (node_name (ast p)) @ js ''Type''))
      else Inr None)"

definition case2 ::
  "(nat \<Rightarrow> jsstring) \<Rightarrow> ast \<Rightarrow> ref \<Rightarrow> ref \<Rightarrow> js_error + jsstring option" where
  "case2 U ast a p =
     (case node_parent (ast p) of
        None \<Rightarrow> Inr None
      | Some g \<Rightarrow>
          if typ_of ast p = ''Identifier'' \<and>
             (is_function (typ_of ast g) \<or> typ_of ast g = ''TSParameterProperty'')
          then
            if (case node_params (ast g) of None \<Rightarrow> False | Some ps \<Rightarrow> p \<in> set ps)
            then Inr (Some (toPascalCase U (node_name (ast p)) @ js ''Type''))
            else if typ_of ast g = ''TSParameterProperty'' \<and> node_parameter (ast g) = Some p
            then Inr (Some (toPascalCase U (node_name (ast p)) @ js ''Type''))
            else Inr None
          else Inr None)"

definition case3 ::
  "(nat \<Rightarrow> jsstring) \<Rightarrow> ast \<Rightarrow> ref \<Rightarrow> ref \<Rightarrow> js_error + jsstring option" where
  "case3 U ast a p =
     (case node_parent (ast p) of
        None \<Rightarrow> Inr None
      | Some g \<Rightarrow>
          if typ_of ast p = ''ObjectPattern'' \<and> is_function (typ_of ast g)
          then (let funcName = id_name ast g
                in Inr (Some (if truthy funcName then toPascalCase U funcName @ js ''Props''
                              else js ''PropsType'')))
          else Inr None)"

definition case4 ::
  "(nat \<Rightarrow> jsstring) \<Rightarrow> ast \<Rightarrow> ref \<Rightarrow> ref \<Rightarrow> js_error + jsstring option" where
  "case4 U ast a p =
     (case node_parent (ast p) of
        None \<Rightarrow> Inr None
      | Some g \<Rightarrow>
          if typ_of ast p = ''ArrayPattern'' \<and> is_function (typ_of ast g)
          then Inr (Some (js ''ParamsType''))
          else Inr None)"

definition case5 ::
  "(nat \<Rightarrow> jsstring) \<Rightarrow> ast \<Rightarrow> ref \<Rightarrow> ref \<Rightarrow> js_error + jsstring option" where
  "case5 U ast a p =
     (if typ_of ast p = ''PropertyDefinition''
      then (case node_key (ast p) of
              None \<Rightarrow> Inr None
            | Some k \<Rightarrow>
                if typ_of ast k = ''Identifier''
                then Inr (Some (toPascalCase U (node_name (ast k)) @ js ''Type''))
                else Inr None)
      else Inr None)"

definition case6 ::
  "(nat \<Rightarrow> jsstring) \<Rightarrow> ast \<Rightarrow> ref \<Rightarrow> ref \<Rightarrow> js_error + jsstring option" where
  "case6 U ast a p =
     (if is_function (typ_of ast p) \<and> node_returnType (ast p) = Some a
      then (let funcName = id_name ast p
            in if \<not> truthy funcName \<and> parent_type ast p = Some ''VariableDeclarator''
               then (case node_parent (ast p) of
                       None \<Rightarrow> Inr None
                     | Some g \<Rightarrow>
                         (case node_id (ast g) of
                            None \<Rightarrow> Inl TypeError
                          | Some i \<Rightarrow>
                              if typ_of ast i = ''Identifier''
                              then Inr (Some (toPascalCase U (node_name (ast i)) @ js ''ReturnType''))
                              else Inr (Some (toPascalCase U (Some (js ''Function'')) @ js ''ReturnType''))))
               else Inr (Some (toPascalCase U (if truthy funcName then funcName
                                             else Some (js ''Function'')) @ js ''ReturnType'')))
      else Inr None)"

definition case7 ::
  "(nat \<Rightarrow> jsstring) \<Rightarrow> ast \<Rightarrow> ref \<Rightarrow> ref \<Rightarrow> js_error + jsstring option" where
  "case7 U ast a p =
     (if typ_of ast p = ''TSParameterProperty''
      then (case node_parameter (ast p) of
              None \<Rightarrow> Inr None
            | Some q \<Rightarrow>
                if typ_of ast q = ''Identifier''
                then Inr (Some (toPascalCase U (node_name (ast q)) @ js ''Type''))
                else Inr None)
      else Inr None)"

text \<open>The \<^verbatim>\<open>if\<close>s run in order: the first \<^verbatim>\<open>return\<close> or exception ends the block.\<close>

fun first_match :: "(js_error + jsstring option) list \<Rightarrow> js_error + jsstring option" where
  "first_match [] = Inr None"
| "first_match (Inl e # rest) = Inl e"
| "first_match (Inr (Some s) # rest) = Inr (Some s)"
| "first_match (Inr None # rest) = first_match rest"

definition try_block ::
  "(nat \<Rightarrow> jsstring) \<Rightarrow> ast \<Rightarrow> ref \<Rightarrow> ref \<Rightarrow> js_error + jsstring option" where
  "try_block U ast a p =
     first_match [case1 U ast a p, case2 U ast a p, case3 U ast a p, case4 U ast a p,
                  case5 U ast a p, case6 U ast a p, case7 U ast a p]"

text \<open>\<^verbatim>\<open>catch (e)\<close> only logs; after it, and after a block that returned nothing, the
  function returns the fallback name.\<close>

definition deriveTypeName :: "(nat \<Rightarrow> jsstring) \<Rightarrow> ast \<Rightarrow> ref \<Rightarrow> jsstring" where
  "deriveTypeName U ast a =
     (case node_parent (ast a) of
        None \<Rightarrow> js ''ExtractedType''
      | Some p \<Rightarrow>
          (case try_block U ast a p of
             Inr (Some s) \<Rightarrow> s
           | Inr None \<Rightarrow> js ''ExtractedType''
           | Inl e \<Rightarrow> js ''ExtractedType''))"

section \<open>The fix and the report\<close>

text \<open>
  The host's text interface, as ESLint defines it: \<^verbatim>\<open>sourceCode.getText(node)\<close> is the
  slice of the source text at the node's range, \<^verbatim>\<open>fixer.insertTextBefore(node, text)\<close> is
  an insertion at the node's first offset, \<^verbatim>\<open>fixer.replaceText(node, text)\<close> replaces the
  node's range.
\<close>

record edit =
  edit_range :: "nat \<times> nat"
  edit_text :: jsstring

definition getText :: "jsstring \<Rightarrow> ast \<Rightarrow> ref \<Rightarrow> jsstring" where
  "getText src ast r =
     (let (s, e) = node_range (ast r) in take (e - s) (drop s src))"

definition insertTextBefore :: "ast \<Rightarrow> ref \<Rightarrow> jsstring \<Rightarrow> edit" where
  "insertTextBefore ast r txt =
     \<lparr>edit_range = (fst (node_range (ast r)), fst (node_range (ast r))), edit_text = txt\<rparr>"

definition replaceText :: "ast \<Rightarrow> ref \<Rightarrow> jsstring \<Rightarrow> edit" where
  "replaceText ast r txt = \<lparr>edit_range = node_range (ast r), edit_text = txt\<rparr>"

definition typeAliasString :: "jsstring \<Rightarrow> jsstring \<Rightarrow> jsstring" where
  "typeAliasString newTypeName literalText =
     js ''type '' @ newTypeName @ js '' = '' @ literalText @ js '';'' @ [10, 10]"

text \<open>The \<^verbatim>\<open>fix\<close> callback of the report (\<open>fix\<close> is a keyword here, hence the name):
  \<open>Some None\<close> is \<^verbatim>\<open>return null\<close>.\<close>

definition report_fix ::
  "(nat \<Rightarrow> jsstring) \<Rightarrow> ast \<Rightarrow> jsstring \<Rightarrow> ref \<Rightarrow> ref \<Rightarrow> edit list option option" where
  "report_fix U ast src typeAnnotationNode literalNode =
     (let newTypeName = deriveTypeName U ast typeAnnotationNode;
          literalText = getText src ast literalNode
      in do {
        insertionAncestor \<leftarrow> findInsertionPointAncestor ast typeAnnotationNode;
        Some (case insertionAncestor of
                None \<Rightarrow> None
              | Some anc \<Rightarrow>
                  Some [insertTextBefore ast anc (typeAliasString newTypeName literalText),
                        replaceText ast literalNode newTypeName])
      })"

record finding =
  f_node :: ref
  f_messageId :: string
  f_fix :: "edit list option"

text \<open>\<^verbatim>\<open>context.report\<close> appends one finding; the host evaluates the \<^verbatim>\<open>fix\<close> callback when
  it takes the report.\<close>

definition checkMultilineLiteralInAnnotation ::
  "(nat \<Rightarrow> jsstring) \<Rightarrow> ast \<Rightarrow> jsstring \<Rightarrow> ref option \<Rightarrow> finding list option" where
  "checkMultilineLiteralInAnnotation U ast src typeAnnotationNode =
     (case typeAnnotationNode of
        None \<Rightarrow> Some []
      | Some a \<Rightarrow>
          if typ_of ast a \<noteq> ''TSTypeAnnotation'' then Some []
          else (case node_typeAnnotation (ast a) of
                  None \<Rightarrow> Some []
                | Some l \<Rightarrow>
                    if typ_of ast l = ''TSTypeLiteral''
                    then do {
                      fx \<leftarrow> report_fix U ast src a l;
                      Some [\<lparr>f_node = l, f_messageId = ''inlineType'', f_fix = fx\<rparr>]
                    }
                    else Some []))"

section \<open>The visitors\<close>

definition visit_VariableDeclarator ::
  "(nat \<Rightarrow> jsstring) \<Rightarrow> ast \<Rightarrow> jsstring \<Rightarrow> ref \<Rightarrow> finding list option" where
  "visit_VariableDeclarator U ast src n =
     (case node_id (ast n) of
        None \<Rightarrow> Some []
      | Some i \<Rightarrow>
          (case node_typeAnnotation (ast i) of
             None \<Rightarrow> Some []
           | Some a \<Rightarrow> checkMultilineLiteralInAnnotation U ast src (Some a)))"

definition visit_PropertyDefinition ::
  "(nat \<Rightarrow> jsstring) \<Rightarrow> ast \<Rightarrow> jsstring \<Rightarrow> ref \<Rightarrow> finding list option" where
  "visit_PropertyDefinition U ast src n =
     (case node_typeAnnotation (ast n) of
        None \<Rightarrow> Some []
      | Some a \<Rightarrow> checkMultilineLiteralInAnnotation U ast src (Some a))"

text \<open>The body of \<^verbatim>\<open>for (const param of node.params)\<close> for one parameter.\<close>

definition visit_param ::
  "(nat \<Rightarrow> jsstring) \<Rightarrow> ast \<Rightarrow> jsstring \<Rightarrow> ref \<Rightarrow> finding list option" where
  "visit_param U ast src param =
     (case node_typeAnnotation (ast param) of
        Some a \<Rightarrow> checkMultilineLiteralInAnnotation U ast src (Some a)
      | None \<Rightarrow>
          if typ_of ast param = ''TSParameterProperty''
          then (case node_parameter (ast param) of
                  None \<Rightarrow> Some []
                | Some q \<Rightarrow>
                    (case node_typeAnnotation (ast q) of
                       None \<Rightarrow> Some []
                     | Some a \<Rightarrow> checkMultilineLiteralInAnnotation U ast src (Some a)))
          else Some [])"

fun visit_params ::
  "(nat \<Rightarrow> jsstring) \<Rightarrow> ast \<Rightarrow> jsstring \<Rightarrow> ref list \<Rightarrow> finding list option" where
  "visit_params U ast src [] = Some []"
| "visit_params U ast src (param # rest) =
     do {
       fs \<leftarrow> visit_param U ast src param;
       gs \<leftarrow> visit_params U ast src rest;
       Some (fs @ gs)
     }"

definition visit_function ::
  "(nat \<Rightarrow> jsstring) \<Rightarrow> ast \<Rightarrow> jsstring \<Rightarrow> ref \<Rightarrow> finding list option" where
  "visit_function U ast src n =
     do {
       fs \<leftarrow> (case node_returnType (ast n) of
                None \<Rightarrow> Some []
              | Some a \<Rightarrow> checkMultilineLiteralInAnnotation U ast src (Some a));
       gs \<leftarrow> (case node_params (ast n) of
                None \<Rightarrow> Some []
              | Some ps \<Rightarrow> visit_params U ast src ps);
       Some (fs @ gs)
     }"

text \<open>
  The visitor map returned by \<^verbatim>\<open>create\<close>: the host calls the handler whose selector
  matches the node's type; the selector \<^verbatim>\<open>:function\<close> matches the three function types.
  A node of any other type has no handler.
\<close>

definition visit ::
  "(nat \<Rightarrow> jsstring) \<Rightarrow> ast \<Rightarrow> jsstring \<Rightarrow> ref \<Rightarrow> finding list option" where
  "visit U ast src n =
     (if typ_of ast n = ''VariableDeclarator'' then visit_VariableDeclarator U ast src n
      else if typ_of ast n = ''PropertyDefinition'' then visit_PropertyDefinition U ast src n
      else if is_function (typ_of ast n) then visit_function U ast src n
      else Some [])"

text \<open>One pass of the host over the nodes of a file, in the order it walks them.\<close>

fun lint ::
  "(nat \<Rightarrow> jsstring) \<Rightarrow> ast \<Rightarrow> jsstring \<Rightarrow> ref list \<Rightarrow> finding list option" where
  "lint U ast src [] = Some []"
| "lint U ast src (n # rest) =
     do {
       fs \<leftarrow> visit U ast src n;
       gs \<leftarrow> lint U ast src rest;
       Some (fs @ gs)
     }"

section \<open>Notions used to state the properties\<close>

text \<open>The literal \<open>l\<close> directly occupies the annotation \<open>a\<close>.\<close>

definition occupies :: "ast \<Rightarrow> ref \<Rightarrow> ref \<Rightarrow> bool" where
  "occupies ast a l =
     (typ_of ast a = ''TSTypeAnnotation'' \<and> node_typeAnnotation (ast a) = Some l \<and>
      typ_of ast l = ''TSTypeLiteral'')"

definition opt_list :: "'a option \<Rightarrow> 'a list" where
  "opt_list x = (case x of None \<Rightarrow> [] | Some y \<Rightarrow> [y])"

text \<open>The annotations a visit of node \<open>n\<close> hands to the check, in the order of the calls.\<close>

definition param_slot :: "ast \<Rightarrow> ref \<Rightarrow> ref list" where
  "param_slot ast param =
     (case node_typeAnnotation (ast param) of
        Some a \<Rightarrow> [a]
      | None \<Rightarrow>
          if typ_of ast param = ''TSParameterProperty''
          then (case node_parameter (ast param) of
                  None \<Rightarrow> []
                | Some q \<Rightarrow> opt_list (node_typeAnnotation (ast q)))
          else [])"

definition annotation_slots :: "ast \<Rightarrow> ref \<Rightarrow> ref list" where
  "annotation_slots ast n =
     (if typ_of ast n = ''VariableDeclarator''
      then (case node_id (ast n) of
              None \<Rightarrow> []
            | Some i \<Rightarrow> opt_list (node_typeAnnotation (ast i)))
      else if typ_of ast n = ''PropertyDefinition'' then opt_list (node_typeAnnotation (ast n))
      else if is_function (typ_of ast n)
      then opt_list (node_returnType (ast n)) @
           (case node_params (ast n) of
              None \<Rightarrow> []
            | Some ps \<Rightarrow> concat (map (param_slot ast) ps))
      else [])"

definition all_slots :: "ast \<Rightarrow> ref list \<Rightarrow> ref list" where
  "all_slots ast nodes = concat (map (annotation_slots ast) nodes)"

fun check_all ::
  "(nat \<Rightarrow> jsstring) \<Rightarrow> ast \<Rightarrow> jsstring \<Rightarrow> ref list \<Rightarrow> finding list option" where
  "check_all U ast src [] = Some []"
| "check_all U ast src (a # rest) =
     do {
       fs \<leftarrow> checkMultilineLiteralInAnnotation U ast src (Some a);
       gs \<leftarrow> check_all U ast src rest;
       Some (fs @ gs)
     }"

text \<open>How many findings are keyed by the node \<open>l\<close>.\<close>

definition reports_of :: "ref \<Rightarrow> finding list \<Rightarrow> nat" where
  "reports_of l fs = length (filter (\<lambda>f. f_node f = l) fs)"

text \<open>
  What the parser guarantees of a tree with the nodes \<open>nodes\<close>: a node held in a field
  of \<open>n\<close> is a node of the tree and has \<open>n\<close> as its parent.
\<close>

definition children :: "ast \<Rightarrow> ref \<Rightarrow> ref list" where
  "children ast n =
     opt_list (node_id (ast n)) @ opt_list (node_key (ast n)) @
     opt_list (node_typeAnnotation (ast n)) @ opt_list (node_returnType (ast n)) @
     opt_list (node_parameter (ast n)) @ opt_list (node_declaration (ast n)) @
     (case node_params (ast n) of None \<Rightarrow> [] | Some ps \<Rightarrow> ps)"

definition parent_links :: "ast \<Rightarrow> ref list \<Rightarrow> bool" where
  "parent_links ast nodes =
     (\<forall>n \<in> set nodes. \<forall>c \<in> set (children ast n).
        c \<in> set nodes \<and> node_parent (ast c) = Some n)"

text \<open>
  The places of a tree where the visitors look for an annotation, read off the parent
  links: the annotation's parent \<open>h\<close> is a class property or a function (whose return type
  it is), or \<open>h\<close> is held by a variable declarator, a function or a parameter property of
  a function.
\<close>

definition site_holder :: "ast \<Rightarrow> ref \<Rightarrow> bool" where
  "site_holder ast h =
     (typ_of ast h = ''PropertyDefinition'' \<or> is_function (typ_of ast h) \<or>
      (case node_parent (ast h) of
         None \<Rightarrow> False
       | Some n \<Rightarrow>
           typ_of ast n = ''VariableDeclarator'' \<or> is_function (typ_of ast n) \<or>
           (typ_of ast n = ''TSParameterProperty'' \<and>
            (case parent_type ast n of None \<Rightarrow> False | Some t \<Rightarrow> is_function t))))"

definition annotation_site :: "ast \<Rightarrow> ref \<Rightarrow> bool" where
  "annotation_site ast l =
     (case node_parent (ast l) of
        None \<Rightarrow> False
      | Some a \<Rightarrow>
          typ_of ast a = ''TSTypeAnnotation'' \<and>
          (case node_parent (ast a) of None \<Rightarrow> False | Some h \<Rightarrow> site_holder ast h))"

text \<open>The parent chain of \<open>r\<close> ends after at most \<open>k\<close> steps.\<close>

fun root_within :: "ast \<Rightarrow> nat \<Rightarrow> ref \<Rightarrow> bool" where
  "root_within ast 0 r = (node_parent (ast r) = None)"
| "root_within ast (Suc k) r =
     (case node_parent (ast r) of None \<Rightarrow> True | Some p \<Rightarrow> root_within ast k p)"

text \<open>The \<open>k\<close>-th ancestor of \<open>r\<close>; the node itself for \<open>k = 0\<close>.\<close>

fun nth_ancestor :: "ast \<Rightarrow> nat \<Rightarrow> ref \<Rightarrow> ref option" where
  "nth_ancestor ast 0 r = Some r"
| "nth_ancestor ast (Suc k) r =
     (case node_parent (ast r) of None \<Rightarrow> None | Some p \<Rightarrow> nth_ancestor ast k p)"

text \<open>The parent of \<open>r\<close>, when it has the type \<open>t\<close>.\<close>

definition up :: "ast \<Rightarrow> string \<Rightarrow> ref \<Rightarrow> ref option" where
  "up ast t r =
     (case node_parent (ast r) of
        None \<Rightarrow> None
      | Some p \<Rightarrow> if typ_of ast p = t then Some p else None)"

text \<open>
  An annotation inside the body of the class declaration \<open>cls\<close>: the annotation of a class
  property, or of a constructor parameter. The parameter of a constructor is an identifier,
  an object or array pattern or a rest element, perhaps with a default value (the left of an
  assignment pattern) and perhaps in a parameter property; \<open>hs\<close> are these nodes, from the
  annotation up to the function of the constructor.
\<close>

definition class_property_annotation :: "ast \<Rightarrow> ref \<Rightarrow> ref \<Rightarrow> bool" where
  "class_property_annotation ast a cls =
     (typ_of ast a = ''TSTypeAnnotation'' \<and>
      (up ast ''PropertyDefinition'' a \<bind> up ast ''ClassBody'' \<bind> up ast ''ClassDeclaration'')
        = Some cls)"

definition parameter_types :: "string set" where
  "parameter_types =
     {''Identifier'', ''ObjectPattern'', ''ArrayPattern'', ''RestElement'',
      ''AssignmentPattern'', ''TSParameterProperty''}"

text \<open>The node above \<open>hs\<close>, when \<open>hs\<close> are the successive parents of \<open>x\<close>.\<close>

fun climb :: "ast \<Rightarrow> ref \<Rightarrow> ref list \<Rightarrow> ref option" where
  "climb ast x [] = node_parent (ast x)"
| "climb ast x (h # hs) = (if node_parent (ast x) = Some h then climb ast h hs else None)"

definition constructor_parameter_annotation :: "ast \<Rightarrow> ref \<Rightarrow> ref list \<Rightarrow> ref \<Rightarrow> bool" where
  "constructor_parameter_annotation ast a hs cls =
     (typ_of ast a = ''TSTypeAnnotation'' \<and> hs \<noteq> [] \<and>
      (\<forall>h \<in> set hs. typ_of ast h \<in> parameter_types) \<and>
      (climb ast a hs \<bind>
         (\<lambda>fn. if typ_of ast fn = ''FunctionExpression'' then Some fn else None) \<bind>
         up ast ''MethodDefinition'' \<bind> up ast ''ClassBody'' \<bind> up ast ''ClassDeclaration'')
        = Some cls)"

text \<open>The literal an annotation is flagged for: the object-type literal that directly
  occupies it, if there is one.\<close>

definition flagged :: "ast \<Rightarrow> ref \<Rightarrow> ref list" where
  "flagged ast a = filter (occupies ast a) (opt_list (node_typeAnnotation (ast a)))"

text \<open>A result \<open>y\<close> of the loop started at \<open>s\<close> and now at \<open>c\<close> is, when it is a node,
  the start node (of a target type) or a node on the parent chain of \<open>c\<close>.\<close>

definition on_chain :: "ast \<Rightarrow> ref \<Rightarrow> ref \<Rightarrow> ref option \<Rightarrow> bool" where
  "on_chain ast s c y =
     (\<forall>r. y = Some r \<longrightarrow>
        (r = s \<and> typ_of ast s \<in> targetAncestorTypes) \<or> (\<exists>k. nth_ancestor ast k c = Some r))"

text \<open>
  A tree, as the parser builds it, over the list of its nodes: the nodes are distinct, a node
  held in a field has the holder as its parent, the parameters of a node are distinct, and
  the nodes bound by \<^verbatim>\<open>id\<close>, \<^verbatim>\<open>params\<close> and \<^verbatim>\<open>parameter\<close> are identifiers and patterns,
  so neither class properties nor functions.
\<close>

definition is_site_type :: "string \<Rightarrow> bool" where
  "is_site_type t = (t = ''PropertyDefinition'' \<or> is_function t)"

definition bindings :: "ast \<Rightarrow> ref \<Rightarrow> ref list" where
  "bindings ast n =
     opt_list (node_id (ast n)) @ opt_list (node_parameter (ast n)) @
     (case node_params (ast n) of None \<Rightarrow> [] | Some ps \<Rightarrow> ps)"

definition tree :: "ast \<Rightarrow> ref list \<Rightarrow> bool" where
  "tree ast nodes =
     (distinct nodes \<and> parent_links ast nodes \<and>
      (\<forall>n \<in> set nodes.
         (case node_params (ast n) of None \<Rightarrow> True | Some ps \<Rightarrow> distinct ps) \<and>
         (\<forall>c \<in> set (bindings ast n). \<not> is_site_type (typ_of ast c))))"

text \<open>The visited node an annotation is read from, and the parameter it is read from, as
  the parent links give them.\<close>

definition slot_owner :: "ast \<Rightarrow> ref \<Rightarrow> ref option" where
  "slot_owner ast a =
     (case node_parent (ast a) of
        None \<Rightarrow> None
      | Some h \<Rightarrow>
          if is_site_type (typ_of ast h) then Some h
          else (case node_parent (ast h) of
                  None \<Rightarrow> None
                | Some p \<Rightarrow>
                    if typ_of ast p = ''TSParameterProperty'' then node_parent (ast p)
                    else Some p))"

definition slot_param :: "ast \<Rightarrow> ref \<Rightarrow> ref option" where
  "slot_param ast a =
     (case node_parent (ast a) of
        None \<Rightarrow> None
      | Some h \<Rightarrow>
          (case node_parent (ast h) of
             None \<Rightarrow> Some h
           | Some p \<Rightarrow> if typ_of ast p = ''TSParameterProperty'' then Some p else Some h))"





section \<open>Example trees\<close>

definition blank :: node where
  "blank =
     \<lparr>node_type = [], node_parent = None, node_name = None, node_id = None,
      node_key = None, node_params = None, node_parameter = None, node_returnType = None,
      node_typeAnnotation = None, node_declaration = None, node_range = (0, 0),
      node_loc = ((0, 0), (0, 0))\<rparr>"

definition nd :: "string \<Rightarrow> ref option \<Rightarrow> node" where
  "nd t par = blank\<lparr>node_type := t, node_parent := par\<rparr>"

definition ast_of :: "(ref \<times> node) list \<Rightarrow> ast" where
  "ast_of xs r = (case map_of xs r of None \<Rightarrow> blank | Some n \<Rightarrow> n)"

text \<open>\<^verbatim>\<open>let cfg: { host: string; port: number };\<close>\<close>

definition cfg_src :: jsstring where
  "cfg_src = js ''let cfg: { host: string; port: number };''"

definition cfg_ast :: ast where
  "cfg_ast = ast_of
     [(0, (nd ''Program'' None)\<lparr>node_range := (0, 40)\<rparr>),
      (1, (nd ''VariableDeclaration'' (Some 0))\<lparr>node_range := (0, 40)\<rparr>),
      (2, (nd ''VariableDeclarator'' (Some 1))\<lparr>node_id := Some 3\<rparr>),
      (3, (nd ''Identifier'' (Some 2))\<lparr>node_name := Some (js ''cfg''), node_typeAnnotation := Some 4\<rparr>),
      (4, (nd ''TSTypeAnnotation'' (Some 3))\<lparr>node_typeAnnotation := Some 5\<rparr>),
      (5, (nd ''TSTypeLiteral'' (Some 4))\<lparr>node_range := (9, 39), node_loc := ((1, 9), (1, 39))\<rparr>)]"



text \<open>\<^verbatim>\<open>export const getConfig = (): { ... } => ...;\<close>\<close>

definition export_ast :: ast where
  "export_ast = ast_of
     [(0, nd ''Program'' None),
      (1, (nd ''ExportNamedDeclaration'' (Some 0))\<lparr>node_declaration := Some 2\<rparr>),
      (2, nd ''VariableDeclaration'' (Some 1)),
      (3, (nd ''VariableDeclarator'' (Some 2))\<lparr>node_id := Some 4\<rparr>),
      (4, (nd ''Identifier'' (Some 3))\<lparr>node_name := Some (js ''getConfig'')\<rparr>),
      (5, (nd ''ArrowFunctionExpression'' (Some 3))
            \<lparr>node_params := Some [], node_returnType := Some 6\<rparr>),
      (6, (nd ''TSTypeAnnotation'' (Some 5))\<lparr>node_typeAnnotation := Some 7\<rparr>),
      (7, (nd ''TSTypeLiteral'' (Some 6))\<lparr>node_loc := ((1, 29), (4, 1))\<rparr>)]"

text \<open>The same tree with the declarator's \<^verbatim>\<open>id\<close> set to \<^verbatim>\<open>null\<close>: no parser builds it;
  it makes \<^verbatim>\<open>parent.parent.id.type\<close> throw.\<close>

definition broken_ast :: ast where
  "broken_ast = export_ast(3 := nd ''VariableDeclarator'' (Some 2))"

text \<open>\<^verbatim>\<open>foo((x: { a: string }) => x);\<close>\<close>

definition call_src :: jsstring where
  "call_src = js ''foo((x: { a: string }) => x);''"

definition call_ast :: ast where
  "call_ast = ast_of
     [(0, nd ''Program'' None),
      (1, nd ''ExpressionStatement'' (Some 0)),
      (2, nd ''CallExpression'' (Some 1)),
      (3, (nd ''ArrowFunctionExpression'' (Some 2))\<lparr>node_params := Some [4]\<rparr>),
      (4, (nd ''Identifier'' (Some 3))\<lparr>node_name := Some (js ''x''), node_typeAnnotation := Some 5\<rparr>),
      (5, (nd ''TSTypeAnnotation'' (Some 4))\<lparr>node_typeAnnotation := Some 6\<rparr>),
      (6, (nd ''TSTypeLiteral'' (Some 5))\<lparr>node_range := (8, 21), node_loc := ((1, 8), (1, 21))\<rparr>)]"

text \<open>\<^verbatim>\<open>const { a }: { a: string } = obj;\<close>\<close>

definition destructure_src :: jsstring where
  "destructure_src = js ''const { a }: { a: string } = obj;''"

definition destructure_ast :: ast where
  "destructure_ast = ast_of
     [(0, (nd ''Program'' None)\<lparr>node_range := (0, 33)\<rparr>),
      (1, (nd ''VariableDeclaration'' (Some 0))\<lparr>node_range := (0, 33)\<rparr>),
      (2, (nd ''VariableDeclarator'' (Some 1))\<lparr>node_id := Some 3\<rparr>),
      (3, (nd ''ObjectPattern'' (Some 2))\<lparr>node_typeAnnotation := Some 4\<rparr>),
      (4, (nd ''TSTypeAnnotation'' (Some 3))\<lparr>node_typeAnnotation := Some 5\<rparr>),
      (5, (nd ''TSTypeLiteral'' (Some 4))\<lparr>node_range := (13, 26), node_loc := ((1, 13), (1, 26))\<rparr>)]"

text \<open>\<^verbatim>\<open>class C { p: { a: string } }\<close>\<close>

definition class_ast :: ast where
  "class_ast = ast_of
     [(0, nd ''Program'' None),
      (1, nd ''ClassDeclaration'' (Some 0)),
      (2, nd ''ClassBody'' (Some 1)),
      (3, (nd ''PropertyDefinition'' (Some 2))\<lparr>node_key := Some 4, node_typeAnnotation := Some 5\<rparr>),
      (4, (nd ''Identifier'' (Some 3))\<lparr>node_name := Some (js ''p'')\<rparr>),
      (5, (nd ''TSTypeAnnotation'' (Some 3))\<lparr>node_typeAnnotation := Some 6\<rparr>),
      (6, nd ''TSTypeLiteral'' (Some 5))]"

text \<open>\<^verbatim>\<open>class MyClass { constructor(private config: { url: string }) {} }\<close>\<close>

definition ctor_ast :: ast where
  "ctor_ast = ast_of
     [(0, nd ''Program'' None),
      (1, nd ''ClassDeclaration'' (Some 0)),
      (2, nd ''ClassBody'' (Some 1)),
      (3, nd ''MethodDefinition'' (Some 2)),
      (4, (nd ''FunctionExpression'' (Some 3))\<lparr>node_params := Some [5]\<rparr>),
      (5, (nd ''TSParameterProperty'' (Some 4))\<lparr>node_parameter := Some 6\<rparr>),
      (6, (nd ''Identifier'' (Some 5))\<lparr>node_name := Some (js ''config''), node_typeAnnotation := Some 7\<rparr>),
      (7, (nd ''TSTypeAnnotation'' (Some 6))\<lparr>node_typeAnnotation := Some 8\<rparr>),
      (8, nd ''TSTypeLiteral'' (Some 7))]"

text \<open>\<^verbatim>\<open>function f(k) { switch (k) { case 1: class C { p: { a: string } } } }\<close>\<close>

definition switch_ast :: ast where
  "switch_ast = ast_of
     [(0, nd ''Program'' None),
      (1, (nd ''FunctionDeclaration'' (Some 0))\<lparr>node_id := Some 10, node_params := Some [11]\<rparr>),
      (2, nd ''BlockStatement'' (Some 1)),
      (3, nd ''SwitchStatement'' (Some 2)),
      (4, nd ''SwitchCase'' (Some 3)),
      (5, nd ''ClassDeclaration'' (Some 4)),
      (6, nd ''ClassBody'' (Some 5)),
      (7, (nd ''PropertyDefinition'' (Some 6))\<lparr>node_key := Some 12, node_typeAnnotation := Some 8\<rparr>),
      (8, (nd ''TSTypeAnnotation'' (Some 7))\<lparr>node_typeAnnotation := Some 9\<rparr>),
      (9, nd ''TSTypeLiteral'' (Some 8)),
      (10, (nd ''Identifier'' (Some 1))\<lparr>node_name := Some (js ''f'')\<rparr>),
      (11, (nd ''Identifier'' (Some 1))\<lparr>node_name := Some (js ''k'')\<rparr>),
      (12, (nd ''Identifier'' (Some 7))\<lparr>node_name := Some (js ''p'')\<rparr>)]"

text \<open>
  \<^verbatim>\<open>type Wrapper = { content: { text: string } };\<close> followed by
  \<^verbatim>\<open>let v: { inner: { x: number } };\<close>, the annotation of \<^verbatim>\<open>v\<close> on lines 2 to 6.
\<close>

definition wrapper_ast :: ast where
  "wrapper_ast = ast_of
     [(0, nd ''Program'' None),
      (1, (nd ''TSTypeAliasDeclaration'' (Some 0))\<lparr>node_id := Some 2, node_typeAnnotation := Some 3\<rparr>),
      (2, (nd ''Identifier'' (Some 1))\<lparr>node_name := Some (js ''Wrapper'')\<rparr>),
      (3, nd ''TSTypeLiteral'' (Some 1)),
      (4, (nd ''TSPropertySignature'' (Some 3))\<lparr>node_typeAnnotation := Some 5\<rparr>),
      (5, (nd ''TSTypeAnnotation'' (Some 4))\<lparr>node_typeAnnotation := Some 6\<rparr>),
      (6, nd ''TSTypeLiteral'' (Some 5)),
      (7, nd ''VariableDeclaration'' (Some 0)),
      (8, (nd ''VariableDeclarator'' (Some 7))\<lparr>node_id := Some 9\<rparr>),
      (9, (nd ''Identifier'' (Some 8))\<lparr>node_name := Some (js ''v''), node_typeAnnotation := Some 10\<rparr>),
      (10, (nd ''TSTypeAnnotation'' (Some 9))\<lparr>node_typeAnnotation := Some 11\<rparr>),
      (11, (nd ''TSTypeLiteral'' (Some 10))\<lparr>node_loc := ((2, 7), (6, 1))\<rparr>),
      (12, (nd ''TSPropertySignature'' (Some 11))\<lparr>node_typeAnnotation := Some 13\<rparr>),
      (13, (nd ''TSTypeAnnotation'' (Some 12))\<lparr>node_typeAnnotation := Some 14\<rparr>),
      (14, (nd ''TSTypeLiteral'' (Some 13))\<lparr>node_loc := ((3, 9), (5, 3))\<rparr>)]"

definition wrapper_nodes :: "ref list" where
  "wrapper_nodes = [0, 1, 2, 3, 4, 5, 6, 7, 8, 9, 10, 11, 12, 13, 14]"



text \<open>
  A table of the host for the examples: \<^verbatim>\<open>U+00FC\<close> (252) goes to \<^verbatim>\<open>U+00DC\<close> (220),
  \<^verbatim>\<open>U+00DF\<close> (223) to \<^verbatim>\<open>SS\<close>, and the other units stay.
\<close>

definition host_upper :: "nat \<Rightarrow> jsstring" where
  "host_upper c = (if c = 252 then [220] else if c = 223 then js ''SS'' else [c])"

text \<open>
  \<^verbatim>\<open>function f(opts: { a: string; b: number } = init) {}\<close>, the annotation on lines
  1 to 4: the parameter is an assignment pattern with the identifier on its left.
\<close>

definition default_ast :: ast where
  "default_ast = ast_of
     [(0, nd ''Program'' None),
      (1, (nd ''FunctionDeclaration'' (Some 0))\<lparr>node_id := Some 2, node_params := Some [3]\<rparr>),
      (2, (nd ''Identifier'' (Some 1))\<lparr>node_name := Some (js ''f'')\<rparr>),
      (3, nd ''AssignmentPattern'' (Some 1)),
      (4, (nd ''Identifier'' (Some 3))\<lparr>node_name := Some (js ''opts''),
                                          node_typeAnnotation := Some 5\<rparr>),
      (5, (nd ''TSTypeAnnotation'' (Some 4))\<lparr>node_typeAnnotation := Some 6\<rparr>),
      (6, (nd ''TSTypeLiteral'' (Some 5))\<lparr>node_loc := ((1, 17), (4, 1))\<rparr>),
      (7, (nd ''Identifier'' (Some 3))\<lparr>node_name := Some (js ''init'')\<rparr>)]"

definition default_nodes :: "ref list" where
  "default_nodes = [0, 1, 2, 3, 4, 5, 6, 7]"

text \<open>\<^verbatim>\<open>class D { constructor({ a }: { a: string }) {} }\<close>\<close>

definition pattern_ctor_ast :: ast where
  "pattern_ctor_ast = ast_of
     [(0, nd ''Program'' None),
      (1, nd ''ClassDeclaration'' (Some 0)),
      (2, nd ''ClassBody'' (Some 1)),
      (3, nd ''MethodDefinition'' (Some 2)),
      (4, (nd ''FunctionExpression'' (Some 3))\<lparr>node_params := Some [5]\<rparr>),
      (5, (nd ''ObjectPattern'' (Some 4))\<lparr>node_typeAnnotation := Some 6\<rparr>),
      (6, (nd ''TSTypeAnnotation'' (Some 5))\<lparr>node_typeAnnotation := Some 7\<rparr>),
      (7, nd ''TSTypeLiteral'' (Some 6))]"

section \<open>Unfolding the definitions\<close>

lemmas type_sets = targetAncestorTypes_def validParentContextTypes_def is_export_def
  is_function_def

lemmas tree_defs = ast_of_def nd_def blank_def typ_of_def parent_type_def

lemmas pascal_defs = toPascalCase_def toUpperCase_def is_lower_def truthy_def js_def

lemmas name_defs = deriveTypeName_def try_block_def case1_def case2_def case3_def case4_def
  case5_def case6_def case7_def id_name_def

lemmas loop_defs = findInsertionPointAncestor_def ancestor_loop.simps declaration_is_target_def

lemmas fix_defs = report_fix_def getText_def insertTextBefore_def replaceText_def js_def
  typeAliasString_def

lemmas visit_defs = visit_def visit_VariableDeclarator_def visit_PropertyDefinition_def
  visit_function_def visit_param_def checkMultilineLiteralInAnnotation_def

section \<open>The ancestor loop\<close>

lemma export_not_target: "is_export t \<Longrightarrow> t \<notin> targetAncestorTypes"
  by (auto simp: type_sets)

lemma loop_no_parent:
  "node_parent (ast c) = None \<Longrightarrow> ancestor_loop ast s c = Some None"
  by (subst ancestor_loop.simps) simp

lemma loop_pass:
  assumes "node_parent (ast c) = Some p"
    and "typ_of ast c \<notin> targetAncestorTypes" and "\<not> is_export (typ_of ast c)"
    and "typ_of ast p \<noteq> ''Program''"
  shows "ancestor_loop ast s c = ancestor_loop ast s p"
  using assms by (subst ancestor_loop.simps) simp

text \<open>
  On a tree the loop returns: when the parent chain of the current node ends, so does the
  loop.
\<close>

lemma loop_returns:
  "root_within ast k c \<Longrightarrow> \<exists>res. ancestor_loop ast s c = Some res"
proof (induction k arbitrary: c)
  case 0
  then show ?case by (simp add: loop_no_parent)
next
  case (Suc k)
  show ?case
  proof (cases "node_parent (ast c)")
    case None
    then show ?thesis by (simp add: loop_no_parent)
  next
    case (Some p)
    with Suc.prems have "root_within ast k p" by simp
    then obtain res where "ancestor_loop ast s p = Some res"
      using Suc.IH by blast
    with Some show ?thesis
      by (subst ancestor_loop.simps) simp
  qed
qed

lemma resolver_returns:
  "root_within ast k a \<Longrightarrow> \<exists>res. findInsertionPointAncestor ast a = Some res"
  unfolding findInsertionPointAncestor_def by (rule loop_returns)

text \<open>
  Whatever the loop returns lies on the parent chain of the node it is at, the start node
  apart.
\<close>

lemma nth_ancestor_parent:
  "node_parent (ast c) = Some p \<Longrightarrow> nth_ancestor ast k p = Some r \<Longrightarrow>
   nth_ancestor ast (Suc k) c = Some r"
  by simp

lemma on_chain_step:
  assumes p: "node_parent (ast c) = Some p" and "on_chain ast s p y"
  shows "on_chain ast s c y"
  unfolding on_chain_def
proof (intro allI impI)
  fix r assume "y = Some r"
  with assms(2) have "(r = s \<and> typ_of ast s \<in> targetAncestorTypes) \<or>
      (\<exists>k. nth_ancestor ast k p = Some r)"
    by (simp add: on_chain_def)
  then show "(r = s \<and> typ_of ast s \<in> targetAncestorTypes) \<or>
      (\<exists>k. nth_ancestor ast k c = Some r)"
  proof
    assume "r = s \<and> typ_of ast s \<in> targetAncestorTypes"
    then show ?thesis by blast
  next
    assume "\<exists>k. nth_ancestor ast k p = Some r"
    then obtain k where "nth_ancestor ast k p = Some r" by blast
    then have "nth_ancestor ast (Suc k) c = Some r" using p by simp
    then show ?thesis by blast
  qed
qed

lemma on_chain_self: "on_chain ast s c (Some c)"
  unfolding on_chain_def using nth_ancestor.simps(1) by blast

lemma on_chain_parent: "node_parent (ast c) = Some p \<Longrightarrow> on_chain ast s c (Some p)"
  using on_chain_step[of ast c p s "Some p"] on_chain_self[of ast s p] by simp

lemma on_chain_start: "typ_of ast s \<in> targetAncestorTypes \<Longrightarrow> on_chain ast s c (Some s)"
  by (simp add: on_chain_def)

lemma on_chain_null: "on_chain ast s c None"
  by (simp add: on_chain_def)

lemma loop_on_chain:
  assumes "ancestor_loop ast s c = Some y"
  shows "on_chain ast s c y"
proof (rule ancestor_loop.raw_induct[where P = on_chain, OF _ assms])
  fix loop :: "ast \<Rightarrow> ref \<Rightarrow> ref \<Rightarrow> ref option option" and ast s c y
  assume IH: "\<And>ast s c y. loop ast s c = Some y \<Longrightarrow> on_chain ast s c y"
  assume body: "(case node_parent (ast c) of
        None \<Rightarrow> Some None
      | Some p \<Rightarrow>
          if typ_of ast c \<in> targetAncestorTypes \<and> typ_of ast p \<in> validParentContextTypes
          then (if is_export (typ_of ast p) then Some (Some p) else Some (Some c))
          else if is_export (typ_of ast c) \<and> declaration_is_target ast c
          then Some (Some c)
          else if typ_of ast p = ''Program''
          then (if typ_of ast s \<in> targetAncestorTypes then Some (Some s)
                else Some None)
          else loop ast s p) = Some y"
  show "on_chain ast s c y"
  proof (cases "node_parent (ast c)")
    case None
    with body have "y = None" by simp
    then show ?thesis by (simp add: on_chain_null)
  next
    case (Some p)
    let ?c1 = "typ_of ast c \<in> targetAncestorTypes \<and> typ_of ast p \<in> validParentContextTypes"
    let ?c2 = "is_export (typ_of ast c) \<and> declaration_is_target ast c"
    show ?thesis
    proof (cases ?c1)
      case True
      with body Some have "y = Some p \<or> y = Some c" by (simp split: if_splits)
      then show ?thesis
        using on_chain_parent[of ast c p s] on_chain_self[of ast s c] Some by auto
    next
      case c1: False
      show ?thesis
      proof (cases ?c2)
        case True
        with body Some c1 have "y = Some c" by simp
        then show ?thesis by (simp add: on_chain_self)
      next
        case c2: False
        show ?thesis
        proof (cases "typ_of ast p = ''Program''")
          case True
          with body Some c1 c2 have
            "(y = Some s \<and> typ_of ast s \<in> targetAncestorTypes) \<or> y = None"
            by (simp split: if_splits)
          then show ?thesis
            using on_chain_start[of ast s c] on_chain_null[of ast s c] by auto
        next
          case False
          with body Some c1 c2 have "loop ast s p = Some y" by simp
          then have "on_chain ast s p y" by (rule IH)
          then show ?thesis using on_chain_step[of ast c p s y] Some by simp
        qed
      qed
    qed
  qed
qed

section \<open>What a pass reports\<close>

lemma flagged_occupied: "occupies ast a l \<Longrightarrow> flagged ast a = [l]"
  by (simp add: flagged_def occupies_def opt_list_def)

lemma flagged_cases: "flagged ast a = [] \<or> (\<exists>l. occupies ast a l \<and> flagged ast a = [l])"
  by (auto simp: flagged_def opt_list_def split: option.splits)

lemma occupies_unique: "occupies ast a l \<Longrightarrow> occupies ast a l' \<Longrightarrow> l = l'"
  by (simp add: occupies_def)

lemma check_occupied:
  "occupies ast a l \<Longrightarrow>
   checkMultilineLiteralInAnnotation U ast src (Some a) =
     report_fix U ast src a l \<bind>
       (\<lambda>fx. Some [\<lparr>f_node = l, f_messageId = ''inlineType'', f_fix = fx\<rparr>])"
  by (simp add: checkMultilineLiteralInAnnotation_def occupies_def)

lemma check_unoccupied:
  "flagged ast a = [] \<Longrightarrow> checkMultilineLiteralInAnnotation U ast src (Some a) = Some []"
  by (auto simp: checkMultilineLiteralInAnnotation_def flagged_def occupies_def opt_list_def
      split: option.splits)

lemma check_nodes:
  assumes "checkMultilineLiteralInAnnotation U ast src (Some a) = Some fs"
  shows "map f_node fs = flagged ast a"
proof -
  from flagged_cases[of ast a] show ?thesis
  proof
    assume e: "flagged ast a = []"
    with assms show ?thesis by (simp add: check_unoccupied)
  next
    assume "\<exists>l. occupies ast a l \<and> flagged ast a = [l]"
    then obtain l where l: "occupies ast a l" "flagged ast a = [l]" by blast
    from assms l(1) obtain fx where
      "fs = [\<lparr>f_node = l, f_messageId = ''inlineType'', f_fix = fx\<rparr>]"
      by (auto simp: check_occupied split: bind_splits)
    with l(2) show ?thesis by simp
  qed
qed

text \<open>
  A visit is the check run over the annotations of the node, and a pass is the check run over
  the annotations of all its nodes.
\<close>

lemma check_all_append:
  "check_all U ast src (xs @ ys) =
     check_all U ast src xs \<bind> (\<lambda>fs. check_all U ast src ys \<bind> (\<lambda>gs. Some (fs @ gs)))"
  by (induction xs) (auto split: bind_splits)

lemma bind_nil_right: "(m \<bind> (\<lambda>fs. Some (fs @ []))) = (m :: 'a list option)"
  by (cases m) auto

lemma check_all_single:
  "check_all U ast src [a] = checkMultilineLiteralInAnnotation U ast src (Some a)"
  by (simp add: bind_nil_right)

lemma check_all_opt_list:
  "check_all U ast src (opt_list x) =
     (case x of None \<Rightarrow> Some [] | Some a \<Rightarrow> checkMultilineLiteralInAnnotation U ast src (Some a))"
  by (cases x) (simp_all add: opt_list_def bind_nil_right)

lemma visit_param_slots: "visit_param U ast src p = check_all U ast src (param_slot ast p)"
  by (simp add: visit_param_def param_slot_def check_all_opt_list bind_nil_right
      split: option.splits)

lemma visit_params_slots:
  "visit_params U ast src ps = check_all U ast src (concat (map (param_slot ast) ps))"
  by (induction ps) (simp_all add: visit_param_slots check_all_append)

lemma visit_slots: "visit U ast src n = check_all U ast src (annotation_slots ast n)"
  by (simp add: visit_def annotation_slots_def visit_VariableDeclarator_def
      visit_PropertyDefinition_def visit_function_def check_all_opt_list check_all_append
      visit_params_slots split: option.splits)

lemma lint_slots: "lint U ast src nodes = check_all U ast src (all_slots ast nodes)"
  by (induction nodes) (simp_all add: all_slots_def visit_slots check_all_append)

lemma check_all_nodes:
  "check_all U ast src as = Some fs \<Longrightarrow> map f_node fs = concat (map (flagged ast) as)"
proof (induction as arbitrary: fs)
  case Nil
  then show ?case by simp
next
  case (Cons a as)
  from Cons.prems obtain gs hs where
    g: "checkMultilineLiteralInAnnotation U ast src (Some a) = Some gs"
    and h: "check_all U ast src as = Some hs" and fs: "fs = gs @ hs"
    by (auto split: bind_splits)
  show ?case using check_nodes[OF g] Cons.IH[OF h] fs by simp
qed

lemma lint_nodes:
  "lint U ast src nodes = Some fs \<Longrightarrow>
   map f_node fs = concat (map (flagged ast) (all_slots ast nodes))"
  by (simp add: lint_slots check_all_nodes)

lemma check_all_member:
  assumes "check_all U ast src as = Some fs" "a \<in> set as"
    and "checkMultilineLiteralInAnnotation U ast src (Some a) = Some gs"
  shows "set gs \<subseteq> set fs"
  using assms
proof (induction as arbitrary: fs)
  case Nil
  then show ?case by simp
next
  case (Cons b as)
  from Cons.prems(1) obtain hs ks where
    h: "checkMultilineLiteralInAnnotation U ast src (Some b) = Some hs"
    and k: "check_all U ast src as = Some ks" and fs: "fs = hs @ ks"
    by (auto split: bind_splits)
  show ?case
  proof (cases "a = b")
    case True
    with h Cons.prems(3) fs show ?thesis by auto
  next
    case False
    with Cons.prems(2) have "a \<in> set as" by simp
    from Cons.IH[OF k this Cons.prems(3)] fs show ?thesis by auto
  qed
qed

lemma check_returns:
  assumes "root_within ast k a"
  shows "\<exists>fs. checkMultilineLiteralInAnnotation U ast src (Some a) = Some fs"
proof -
  from resolver_returns[OF assms] obtain res where
    "findInsertionPointAncestor ast a = Some res" by blast
  then show ?thesis
    by (simp add: checkMultilineLiteralInAnnotation_def report_fix_def Let_def split: option.splits)
qed

lemma check_all_returns:
  "\<forall>b \<in> set as. \<exists>k. root_within ast k b \<Longrightarrow> \<exists>fs. check_all U ast src as = Some fs"
proof (induction as)
  case Nil
  then show ?case by simp
next
  case (Cons a as)
  from Cons.prems obtain k where "root_within ast k a" by auto
  from check_returns[OF this] obtain gs where
    "checkMultilineLiteralInAnnotation U ast src (Some a) = Some gs" by blast
  moreover from Cons obtain hs where "check_all U ast src as = Some hs" by auto
  ultimately show ?case by simp
qed

lemma lint_returns:
  "\<forall>b \<in> set (all_slots ast nodes). \<exists>k. root_within ast k b \<Longrightarrow>
   \<exists>fs. lint U ast src nodes = Some fs"
  by (simp add: lint_slots check_all_returns)

lemma reports_of_map: "reports_of l fs = length (filter (\<lambda>x. x = l) (map f_node fs))"
  by (simp add: reports_of_def filter_map comp_def)

lemma count_flagged:
  "length (filter (\<lambda>x. x = l) (concat (map (flagged ast) as))) =
   length (filter (\<lambda>a. occupies ast a l) as)"
proof (induction as)
  case Nil
  then show ?case by simp
next
  case (Cons a as)
  have "filter (\<lambda>x. x = l) (flagged ast a) = (if occupies ast a l then [l] else [])"
    using flagged_cases[of ast a] occupies_unique[of ast a] by (auto simp: flagged_occupied)
  with Cons show ?case by simp
qed

lemma lint_reports:
  "lint U ast src nodes = Some fs \<Longrightarrow>
   reports_of l fs = length (filter (\<lambda>a. occupies ast a l) (all_slots ast nodes))"
  by (simp add: reports_of_map lint_nodes count_flagged)

lemma filter_unique_length:
  assumes "distinct xs" "x \<in> set xs" "P x" "\<And>y. y \<in> set xs \<Longrightarrow> P y \<Longrightarrow> y = x"
  shows "length (filter P xs) = 1"
proof -
  have "{y \<in> set xs. P y} = {x}" using assms by blast
  moreover have "length (filter P xs) = card {y \<in> set xs. P y}"
    using assms(1) by (simp add: distinct_length_filter Int_def conj_commute)
  ultimately show ?thesis by simp
qed

text \<open>
  With the parent links of a tree, an annotation handed to the check sits at one of the
  annotation sites, and the literal in it has the annotation as its parent.
\<close>

lemma linksD:
  "parent_links ast nodes \<Longrightarrow> n \<in> set nodes \<Longrightarrow> c \<in> set (children ast n) \<Longrightarrow>
   c \<in> set nodes \<and> node_parent (ast c) = Some n"
  by (simp add: parent_links_def)

lemma opt_list_mem: "a \<in> set (opt_list x) \<longleftrightarrow> x = Some a"
  by (cases x) (auto simp: opt_list_def)

lemma link_id:
  "parent_links ast nodes \<Longrightarrow> n \<in> set nodes \<Longrightarrow> node_id (ast n) = Some c \<Longrightarrow>
   c \<in> set nodes \<and> node_parent (ast c) = Some n"
  by (simp add: parent_links_def children_def opt_list_def)

lemma link_typeAnnotation:
  "parent_links ast nodes \<Longrightarrow> n \<in> set nodes \<Longrightarrow> node_typeAnnotation (ast n) = Some c \<Longrightarrow>
   c \<in> set nodes \<and> node_parent (ast c) = Some n"
  by (simp add: parent_links_def children_def opt_list_def)

lemma link_returnType:
  "parent_links ast nodes \<Longrightarrow> n \<in> set nodes \<Longrightarrow> node_returnType (ast n) = Some c \<Longrightarrow>
   c \<in> set nodes \<and> node_parent (ast c) = Some n"
  by (simp add: parent_links_def children_def opt_list_def)

lemma link_parameter:
  "parent_links ast nodes \<Longrightarrow> n \<in> set nodes \<Longrightarrow> node_parameter (ast n) = Some c \<Longrightarrow>
   c \<in> set nodes \<and> node_parent (ast c) = Some n"
  by (simp add: parent_links_def children_def opt_list_def)

lemma link_params:
  "parent_links ast nodes \<Longrightarrow> n \<in> set nodes \<Longrightarrow> node_params (ast n) = Some ps \<Longrightarrow>
   c \<in> set ps \<Longrightarrow> c \<in> set nodes \<and> node_parent (ast c) = Some n"
  by (simp add: parent_links_def children_def opt_list_def)

lemma param_slot_site:
  assumes links: "parent_links ast nodes" and n: "n \<in> set nodes"
    and fn: "is_function (typ_of ast n)"
    and ps: "node_params (ast n) = Some ps" and p: "p \<in> set ps"
    and a: "a \<in> set (param_slot ast p)"
  shows "a \<in> set nodes \<and> (\<exists>h. node_parent (ast a) = Some h \<and> site_holder ast h)"
proof -
  from link_params[OF links n ps p]
  have pn: "p \<in> set nodes" and pp: "node_parent (ast p) = Some n" by simp_all
  show ?thesis
  proof (cases "node_typeAnnotation (ast p)")
    case (Some a')
    with a have "a' = a" by (simp add: param_slot_def)
    with Some have "node_typeAnnotation (ast p) = Some a" by simp
    from link_typeAnnotation[OF links pn this]
    have "a \<in> set nodes" "node_parent (ast a) = Some p" by simp_all
    moreover have "site_holder ast p" using pp fn by (simp add: site_holder_def)
    ultimately show ?thesis by blast
  next
    case None
    show ?thesis
    proof (cases "node_parameter (ast p)")
      case no_q: None
      have "param_slot ast p = []" using None no_q by (simp add: param_slot_def)
      with a show ?thesis by simp
    next
      case (Some q)
      from a None Some have "typ_of ast p = ''TSParameterProperty'' \<and>
          node_typeAnnotation (ast q) = Some a"
        by (cases "typ_of ast p = ''TSParameterProperty''")
           (simp_all add: param_slot_def opt_list_mem)
      then have tp: "typ_of ast p = ''TSParameterProperty''"
        and qa: "node_typeAnnotation (ast q) = Some a" by simp_all
      from link_parameter[OF links pn Some]
      have qn: "q \<in> set nodes" and qp: "node_parent (ast q) = Some p" by simp_all
      from link_typeAnnotation[OF links qn qa]
      have "a \<in> set nodes" "node_parent (ast a) = Some q" by simp_all
      moreover have "site_holder ast q"
        using qp tp pp fn by (simp add: site_holder_def parent_type_def)
      ultimately show ?thesis by blast
    qed
  qed
qed

lemma slot_site:
  assumes links: "parent_links ast nodes" and n: "n \<in> set nodes"
    and a: "a \<in> set (annotation_slots ast n)"
  shows "a \<in> set nodes \<and> (\<exists>h. node_parent (ast a) = Some h \<and> site_holder ast h)"
proof -
  consider (vd) "typ_of ast n = ''VariableDeclarator''"
    | (pd) "typ_of ast n \<noteq> ''VariableDeclarator''" "typ_of ast n = ''PropertyDefinition''"
    | (fn) "typ_of ast n \<noteq> ''VariableDeclarator''" "typ_of ast n \<noteq> ''PropertyDefinition''"
           "is_function (typ_of ast n)"
    | (other) "typ_of ast n \<noteq> ''VariableDeclarator''" "typ_of ast n \<noteq> ''PropertyDefinition''"
           "\<not> is_function (typ_of ast n)"
    by blast
  then show ?thesis
  proof cases
    case vd
    show ?thesis
    proof (cases "node_id (ast n)")
      case None
      with a vd show ?thesis by (simp add: annotation_slots_def)
    next
      case (Some i)
      with a vd have ia: "node_typeAnnotation (ast i) = Some a"
        by (simp add: annotation_slots_def opt_list_mem)
      from link_id[OF links n Some]
      have inn: "i \<in> set nodes" and ip: "node_parent (ast i) = Some n" by simp_all
      from link_typeAnnotation[OF links inn ia]
      have "a \<in> set nodes" "node_parent (ast a) = Some i" by simp_all
      moreover have "site_holder ast i" using ip vd by (simp add: site_holder_def)
      ultimately show ?thesis by blast
    qed
  next
    case pd
    with a have na: "node_typeAnnotation (ast n) = Some a"
      by (simp add: annotation_slots_def opt_list_mem)
    from link_typeAnnotation[OF links n na]
    have "a \<in> set nodes" "node_parent (ast a) = Some n" by simp_all
    moreover have "site_holder ast n" using pd by (simp add: site_holder_def)
    ultimately show ?thesis by blast
  next
    case fn
    from a fn have
      "node_returnType (ast n) = Some a \<or>
       (\<exists>ps p. node_params (ast n) = Some ps \<and> p \<in> set ps \<and> a \<in> set (param_slot ast p))"
      by (cases "node_params (ast n)") (auto simp: annotation_slots_def opt_list_mem)
    then show ?thesis
    proof
      assume ret: "node_returnType (ast n) = Some a"
      from link_returnType[OF links n ret]
      have "a \<in> set nodes" "node_parent (ast a) = Some n" by simp_all
      moreover have "site_holder ast n" using fn by (simp add: site_holder_def)
      ultimately show ?thesis by blast
    next
      assume "\<exists>ps p. node_params (ast n) = Some ps \<and> p \<in> set ps \<and> a \<in> set (param_slot ast p)"
      then obtain ps p where "node_params (ast n) = Some ps" "p \<in> set ps"
        "a \<in> set (param_slot ast p)" by blast
      then show ?thesis by (rule param_slot_site[OF links n fn(3)])
    qed
  next
    case other
    with a show ?thesis by (simp add: annotation_slots_def)
  qed
qed

lemma all_slots_site:
  assumes "parent_links ast nodes" "a \<in> set (all_slots ast nodes)"
  shows "a \<in> set nodes \<and> (\<exists>h. node_parent (ast a) = Some h \<and> site_holder ast h)"
  using assms slot_site by (auto simp: all_slots_def)

lemma occupied_slot_site:
  assumes links: "parent_links ast nodes" and a: "a \<in> set (all_slots ast nodes)"
    and occ: "occupies ast a l"
  shows "node_parent (ast l) = Some a \<and> annotation_site ast l"
proof -
  from all_slots_site[OF links a] obtain h where
    an: "a \<in> set nodes" and h: "node_parent (ast a) = Some h" "site_holder ast h" by blast
  from occ have "node_typeAnnotation (ast a) = Some l" "typ_of ast a = ''TSTypeAnnotation''"
    by (simp_all add: occupies_def)
  with link_typeAnnotation[OF links an] have "node_parent (ast l) = Some a" by simp
  with h \<open>typ_of ast a = ''TSTypeAnnotation''\<close> show ?thesis
    by (simp add: annotation_site_def)
qed

lemma reported_site:
  assumes lint: "lint U ast src nodes = Some fs" and links: "parent_links ast nodes"
    and pos: "reports_of l fs \<noteq> 0"
  shows "typ_of ast l = ''TSTypeLiteral'' \<and> annotation_site ast l"
proof -
  from pos lint_reports[OF lint, of l]
  have "filter (\<lambda>a. occupies ast a l) (all_slots ast nodes) \<noteq> []" by auto
  then obtain a where a: "a \<in> set (all_slots ast nodes)" "occupies ast a l"
    by (auto simp: filter_empty_conv)
  from occupied_slot_site[OF links a] a(2) show ?thesis by (simp add: occupies_def)
qed

lemma member_not_site:
  assumes "node_parent (ast l) = Some a" "node_parent (ast a) = Some m"
    and "typ_of ast m = ''TSPropertySignature''"
    and "parent_type ast m = Some ''TSTypeLiteral'' \<or> parent_type ast m = Some ''TSInterfaceBody''"
  shows "\<not> annotation_site ast l"
  using assms
  by (auto simp: annotation_site_def site_holder_def is_function_def parent_type_def
      split: option.splits)

lemma exactly_once:
  assumes lint: "lint U ast src nodes = Some fs" and links: "parent_links ast nodes"
    and dist: "distinct (all_slots ast nodes)"
    and n: "n \<in> set nodes" and a: "a \<in> set (annotation_slots ast n)" and occ: "occupies ast a l"
  shows "reports_of l fs = 1"
proof -
  have a': "a \<in> set (all_slots ast nodes)" using n a by (auto simp: all_slots_def)
  have uniq: "y = a" if "y \<in> set (all_slots ast nodes)" "occupies ast y l" for y
    using occupied_slot_site[OF links that] occupied_slot_site[OF links a' occ] by simp
  show ?thesis
    unfolding lint_reports[OF lint]
    by (rule filter_unique_length[where x = a and P = "\<lambda>a. occupies ast a l"])
       (simp_all add: dist a' occ uniq)
qed

text \<open>In a tree no annotation is handed to the check twice.\<close>

lemma tree_links: "tree ast nodes \<Longrightarrow> parent_links ast nodes"
  by (simp add: tree_def)

lemma tree_id:
  "tree ast nodes \<Longrightarrow> n \<in> set nodes \<Longrightarrow> node_id (ast n) = Some c \<Longrightarrow>
   \<not> is_site_type (typ_of ast c)"
  by (simp add: tree_def bindings_def opt_list_def)

lemma tree_parameter:
  "tree ast nodes \<Longrightarrow> n \<in> set nodes \<Longrightarrow> node_parameter (ast n) = Some c \<Longrightarrow>
   \<not> is_site_type (typ_of ast c)"
  by (simp add: tree_def bindings_def opt_list_def)

lemma tree_params:
  "tree ast nodes \<Longrightarrow> n \<in> set nodes \<Longrightarrow> node_params (ast n) = Some ps \<Longrightarrow>
   distinct ps \<and> (\<forall>c \<in> set ps. \<not> is_site_type (typ_of ast c))"
  by (auto simp: tree_def bindings_def)

lemma site_type_not_property: "is_site_type t \<Longrightarrow> t \<noteq> ''TSParameterProperty''"
  by (auto simp: is_site_type_def is_function_def)

lemma distinct_concat_owner:
  assumes "distinct xs" and "\<forall>x \<in> set xs. distinct (f x)"
    and "\<forall>x \<in> set xs. \<forall>a \<in> set (f x). g a = Some x"
  shows "distinct (concat (map f xs))"
  using assms
proof (induction xs)
  case Nil
  then show ?case by simp
next
  case (Cons x xs)
  have "set (f x) \<inter> set (concat (map f xs)) = {}"
  proof (rule ccontr)
    assume "set (f x) \<inter> set (concat (map f xs)) \<noteq> {}"
    then obtain a y where a: "a \<in> set (f x)" "y \<in> set xs" "a \<in> set (f y)" by auto
    with Cons.prems(3) have "g a = Some x" "g a = Some y" by auto
    then have "x = y" by simp
    with a(2) Cons.prems(1) show False by simp
  qed
  with Cons show ?case by simp
qed

lemma param_slot_shape:
  assumes t: "tree ast nodes" and n: "n \<in> set nodes" and fn: "is_function (typ_of ast n)"
    and ps: "node_params (ast n) = Some ps" and p: "p \<in> set ps"
    and a: "a \<in> set (param_slot ast p)"
  shows "slot_param ast a = Some p \<and> slot_owner ast a = Some n \<and>
         node_parent (ast a) \<noteq> Some n \<and> param_slot ast p = [a]"
proof -
  note links = tree_links[OF t]
  from link_params[OF links n ps p]
  have pn: "p \<in> set nodes" and pp: "node_parent (ast p) = Some n" by simp_all
  from tree_params[OF t n ps] p have pt: "\<not> is_site_type (typ_of ast p)" by simp
  have nt: "typ_of ast n \<noteq> ''TSParameterProperty''" "is_site_type (typ_of ast n)"
    using fn by (auto simp: is_function_def is_site_type_def)
  show ?thesis
  proof (cases "node_typeAnnotation (ast p)")
    case (Some a')
    with a have aa: "a' = a" by (simp add: param_slot_def)
    with Some have ta: "node_typeAnnotation (ast p) = Some a" by simp
    from link_typeAnnotation[OF links pn ta] have ap: "node_parent (ast a) = Some p" by simp
    have "p \<noteq> n" using pt nt(2) by auto
    with ap pp pt nt ta show ?thesis by (simp add: slot_param_def slot_owner_def param_slot_def)
  next
    case None
    show ?thesis
    proof (cases "node_parameter (ast p)")
      case no_q: None
      have "param_slot ast p = []" using None no_q by (simp add: param_slot_def)
      with a show ?thesis by simp
    next
      case (Some q)
      from a None Some have "typ_of ast p = ''TSParameterProperty'' \<and>
          node_typeAnnotation (ast q) = Some a"
        by (cases "typ_of ast p = ''TSParameterProperty''")
           (simp_all add: param_slot_def opt_list_mem)
      then have tp: "typ_of ast p = ''TSParameterProperty''"
        and qa: "node_typeAnnotation (ast q) = Some a" by simp_all
      from link_parameter[OF links pn Some]
      have qn: "q \<in> set nodes" and qp: "node_parent (ast q) = Some p" by simp_all
      from link_typeAnnotation[OF links qn qa] have aq: "node_parent (ast a) = Some q" by simp
      from tree_parameter[OF t pn Some] have qt: "\<not> is_site_type (typ_of ast q)" .
      have "q \<noteq> n" using qt nt(2) by auto
      with aq qp pp tp qt None Some qa show ?thesis
        by (simp add: slot_param_def slot_owner_def param_slot_def opt_list_def)
    qed
  qed
qed

lemma param_slots_distinct:
  assumes t: "tree ast nodes" and n: "n \<in> set nodes" and fn: "is_function (typ_of ast n)"
    and ps: "node_params (ast n) = Some ps"
  shows "distinct (concat (map (param_slot ast) ps))"
proof (rule distinct_concat_owner[where g = "slot_param ast"])
  show "distinct ps" using tree_params[OF t n ps] by simp
  show "\<forall>p \<in> set ps. distinct (param_slot ast p)"
  proof
    fix p assume p: "p \<in> set ps"
    show "distinct (param_slot ast p)"
    proof (cases "param_slot ast p")
      case Nil
      then show ?thesis by simp
    next
      case (Cons a as)
      then have "a \<in> set (param_slot ast p)" by simp
      from param_slot_shape[OF t n fn ps p this] show ?thesis by simp
    qed
  qed
  show "\<forall>p \<in> set ps. \<forall>a \<in> set (param_slot ast p). slot_param ast a = Some p"
    using param_slot_shape[OF t n fn ps] by blast
qed

lemma slot_shape:
  assumes t: "tree ast nodes" and n: "n \<in> set nodes"
  shows "distinct (annotation_slots ast n) \<and>
         (\<forall>a \<in> set (annotation_slots ast n). slot_owner ast a = Some n)"
proof -
  note links = tree_links[OF t]
  consider (vd) "typ_of ast n = ''VariableDeclarator''"
    | (pd) "typ_of ast n \<noteq> ''VariableDeclarator''" "typ_of ast n = ''PropertyDefinition''"
    | (fn) "typ_of ast n \<noteq> ''VariableDeclarator''" "typ_of ast n \<noteq> ''PropertyDefinition''"
           "is_function (typ_of ast n)"
    | (other) "typ_of ast n \<noteq> ''VariableDeclarator''" "typ_of ast n \<noteq> ''PropertyDefinition''"
           "\<not> is_function (typ_of ast n)"
    by blast
  then show ?thesis
  proof cases
    case vd
    show ?thesis
    proof (cases "node_id (ast n)")
      case None
      with vd show ?thesis by (simp add: annotation_slots_def)
    next
      case (Some i)
      from link_id[OF links n Some]
      have inn: "i \<in> set nodes" and ip: "node_parent (ast i) = Some n" by simp_all
      from tree_id[OF t n Some] have it: "\<not> is_site_type (typ_of ast i)" .
      show ?thesis
      proof (cases "node_typeAnnotation (ast i)")
        case None
        with vd Some show ?thesis by (simp add: annotation_slots_def opt_list_def)
      next
        case (Some a)
        from link_typeAnnotation[OF links inn Some] have "node_parent (ast a) = Some i" by simp
        with vd \<open>node_id (ast n) = Some i\<close> Some ip it show ?thesis
          by (simp add: annotation_slots_def opt_list_def slot_owner_def)
      qed
    qed
  next
    case pd
    show ?thesis
    proof (cases "node_typeAnnotation (ast n)")
      case None
      with pd show ?thesis by (simp add: annotation_slots_def opt_list_def)
    next
      case (Some a)
      from link_typeAnnotation[OF links n Some] have "node_parent (ast a) = Some n" by simp
      with pd Some show ?thesis
        by (simp add: annotation_slots_def opt_list_def slot_owner_def is_site_type_def)
    qed
  next
    case fn
    have st: "is_site_type (typ_of ast n)" using fn by (simp add: is_site_type_def)
    have ret: "slot_owner ast a = Some n \<and> node_parent (ast a) = Some n"
      if "node_returnType (ast n) = Some a" for a
      using link_returnType[OF links n that] st by (simp add: slot_owner_def)
    show ?thesis
    proof (cases "node_params (ast n)")
      case None
      with fn ret show ?thesis
        by (cases "node_returnType (ast n)") (simp_all add: annotation_slots_def opt_list_def)
    next
      case (Some ps)
      note shape = param_slot_shape[OF t n fn(3) Some]
      have d: "distinct (concat (map (param_slot ast) ps))"
        by (rule param_slots_distinct[OF t n fn(3) Some])
      have own: "\<forall>a \<in> set (concat (map (param_slot ast) ps)). slot_owner ast a = Some n \<and>
          node_parent (ast a) \<noteq> Some n"
        using shape by auto
      show ?thesis
      proof (cases "node_returnType (ast n)")
        case None
        with fn Some d own show ?thesis by (simp add: annotation_slots_def opt_list_def)
      next
        case r: (Some a)
        from ret[OF r] own have "a \<notin> set (concat (map (param_slot ast) ps))" by blast
        with fn Some r d own ret[OF r] show ?thesis
          by (simp add: annotation_slots_def opt_list_def)
      qed
    qed
  next
    case other
    then show ?thesis by (simp add: annotation_slots_def)
  qed
qed

lemma all_slots_distinct:
  assumes "tree ast nodes"
  shows "distinct (all_slots ast nodes)"
  unfolding all_slots_def
proof (rule distinct_concat_owner[where g = "slot_owner ast"])
  show "distinct nodes" using assms by (simp add: tree_def)
  show "\<forall>n \<in> set nodes. distinct (annotation_slots ast n)"
    using slot_shape[OF assms] by blast
  show "\<forall>n \<in> set nodes. \<forall>a \<in> set (annotation_slots ast n). slot_owner ast a = Some n"
    using slot_shape[OF assms] by blast
qed

section \<open>Names and class bodies\<close>





lemma up_Some: "up ast t r = Some p \<longleftrightarrow> node_parent (ast r) = Some p \<and> typ_of ast p = t"
  by (auto simp: up_def split: option.splits)

lemma loop_up:
  assumes "up ast t c = Some p" and "typ_of ast c \<notin> targetAncestorTypes"
    and "\<not> is_export (typ_of ast c)" and "t \<noteq> ''Program''"
  shows "ancestor_loop ast s c = ancestor_loop ast s p"
proof -
  from assms(1) have "node_parent (ast c) = Some p" "typ_of ast p = t"
    by (simp_all add: up_Some)
  with assms(2-4) show ?thesis using loop_pass[of ast c p s] by simp
qed

lemma inner_types:
  "t \<in> {''TSTypeAnnotation'', ''PropertyDefinition'', ''ClassBody'', ''Identifier'',
         ''TSParameterProperty'', ''FunctionExpression'', ''MethodDefinition''} \<Longrightarrow>
   t \<notin> targetAncestorTypes \<and> \<not> is_export t"
  by (auto simp: type_sets)

lemma loop_up_inner:
  assumes "up ast t c = Some p"
    and "typ_of ast c \<in> {''TSTypeAnnotation'', ''PropertyDefinition'', ''ClassBody'',
           ''Identifier'', ''TSParameterProperty'', ''FunctionExpression'', ''MethodDefinition''}"
    and "t \<noteq> ''Program''"
  shows "ancestor_loop ast s c = ancestor_loop ast s p \<and> typ_of ast p = t"
  using loop_up[OF assms(1) _ _ assms(3)] inner_types[OF assms(2)] assms(1)
  by (simp add: up_Some)

lemma class_property_loop:
  assumes "class_property_annotation ast a cls"
  shows "findInsertionPointAncestor ast a = ancestor_loop ast a cls \<and>
         typ_of ast a = ''TSTypeAnnotation'' \<and> typ_of ast cls = ''ClassDeclaration''"
proof -
  from assms obtain pd cb where ta: "typ_of ast a = ''TSTypeAnnotation''"
    and u1: "up ast ''PropertyDefinition'' a = Some pd"
    and u2: "up ast ''ClassBody'' pd = Some cb"
    and u3: "up ast ''ClassDeclaration'' cb = Some cls"
    by (auto simp: class_property_annotation_def bind_eq_Some_conv)
  from loop_up_inner[OF u1, of a] ta
  have s1: "ancestor_loop ast a a = ancestor_loop ast a pd" "typ_of ast pd = ''PropertyDefinition''"
    by simp_all
  from loop_up_inner[OF u2, of a] s1(2)
  have s2: "ancestor_loop ast a pd = ancestor_loop ast a cb" "typ_of ast cb = ''ClassBody''"
    by simp_all
  from loop_up_inner[OF u3, of a] s2(2)
  have s3: "ancestor_loop ast a cb = ancestor_loop ast a cls" "typ_of ast cls = ''ClassDeclaration''"
    by simp_all
  show ?thesis using s1 s2 s3 ta by (simp add: findInsertionPointAncestor_def)
qed

section \<open>The PascalCase of the specification\<close>






text \<open>Outside ASCII the first unit is raised by the table of the host.\<close>

lemma unicode_first_letter:
  "toPascalCase host_upper (Some ([252] @ js ''ber_x'')) = [220] @ js ''berX''"
  by (simp add: pascal_defs host_upper_def)

section \<open>Constructor parameters\<close>

lemma parameter_types_pass:
  "t \<in> parameter_types \<Longrightarrow> t \<notin> targetAncestorTypes \<and> \<not> is_export t \<and> t \<noteq> ''Program''"
  by (auto simp: parameter_types_def type_sets)

lemma loop_climb:
  assumes "climb ast x hs = Some y"
    and "\<forall>h \<in> set hs. typ_of ast h \<in> parameter_types"
    and "typ_of ast x \<notin> targetAncestorTypes" and "\<not> is_export (typ_of ast x)"
    and "typ_of ast y \<noteq> ''Program''"
  shows "ancestor_loop ast s x = ancestor_loop ast s y"
  using assms
proof (induction hs arbitrary: x)
  case Nil
  then have "node_parent (ast x) = Some y" by simp
  with Nil.prems(3-5) show ?case using loop_pass[of ast x y s] by simp
next
  case (Cons h hs)
  from Cons.prems(1) have p: "node_parent (ast x) = Some h" and c: "climb ast h hs = Some y"
    by (simp_all split: if_splits)
  from Cons.prems(2) have th: "typ_of ast h \<in> parameter_types"
    and rest: "\<forall>h \<in> set hs. typ_of ast h \<in> parameter_types" by simp_all
  from parameter_types_pass[OF th] have hp: "typ_of ast h \<notin> targetAncestorTypes"
    "\<not> is_export (typ_of ast h)" "typ_of ast h \<noteq> ''Program''" by simp_all
  have "ancestor_loop ast s x = ancestor_loop ast s h"
    using loop_pass[of ast x h s] p Cons.prems(3,4) hp(3) by simp
  also have "\<dots> = ancestor_loop ast s y"
    by (rule Cons.IH[OF c rest hp(1) hp(2) Cons.prems(5)])
  finally show ?case .
qed

lemma constructor_parameter_loop:
  assumes "constructor_parameter_annotation ast a hs cls"
  shows "findInsertionPointAncestor ast a = ancestor_loop ast a cls \<and>
         typ_of ast a = ''TSTypeAnnotation'' \<and> typ_of ast cls = ''ClassDeclaration''"
proof -
  from assms obtain fn md cb where ta: "typ_of ast a = ''TSTypeAnnotation''"
    and hs: "\<forall>h \<in> set hs. typ_of ast h \<in> parameter_types"
    and c: "climb ast a hs = Some fn" and tf: "typ_of ast fn = ''FunctionExpression''"
    and u2: "up ast ''MethodDefinition'' fn = Some md"
    and u3: "up ast ''ClassBody'' md = Some cb"
    and u4: "up ast ''ClassDeclaration'' cb = Some cls"
    by (auto simp: constructor_parameter_annotation_def bind_eq_Some_conv split: if_splits)
  have s0: "ancestor_loop ast a a = ancestor_loop ast a fn"
    using loop_climb[OF c hs, of a] ta tf by (simp add: type_sets)
  from loop_up_inner[OF u2, of a] tf
  have s2: "ancestor_loop ast a fn = ancestor_loop ast a md" "typ_of ast md = ''MethodDefinition''"
    by simp_all
  from loop_up_inner[OF u3, of a] s2(2)
  have s3: "ancestor_loop ast a md = ancestor_loop ast a cb" "typ_of ast cb = ''ClassBody''"
    by simp_all
  from loop_up_inner[OF u4, of a] s3(2)
  have s4: "ancestor_loop ast a cb = ancestor_loop ast a cls" "typ_of ast cls = ''ClassDeclaration''"
    by simp_all
  show ?thesis using s0 s2 s3 s4 ta by (simp add: findInsertionPointAncestor_def)
qed

section \<open>The properties of the rule\<close>

subsection \<open>Detection\<close>

text \<open>
  Claim C1 says that an object-type annotation on one line gives no finding, whatever its
  role, and that a finding needs a literal of more than one line. The check never looks at
  the lines of the literal: for the one-line declaration
  \<^verbatim>\<open>let cfg: { host: string; port: number };\<close> a pass reports the literal and the
  fix that hoists it, as the tests of the rule expect.
\<close>

theorem single_line_literal_reported:
  "single_line (cfg_ast 5) \<and>
   lint host_upper cfg_ast cfg_src [0, 1, 2, 3, 4, 5] =
     Some [\<lparr>f_node = 5, f_messageId = ''inlineType'',
            f_fix = Some [\<lparr>edit_range = (0, 0),
                            edit_text = js ''type CfgType = { host: string; port: number };'' @
                                        [10, 10]\<rparr>,
                          \<lparr>edit_range = (9, 39), edit_text = js ''CfgType''\<rparr>]\<rparr>]"
  by (simp add: single_line_def start_line_def end_line_def cfg_ast_def cfg_src_def tree_defs
      type_sets pascal_defs name_defs loop_defs fix_defs visit_defs)

text \<open>
  Claim C1, as the code has it: for an annotation of a tree, a finding is produced, keyed by
  the literal, for every object-type literal that directly occupies the checked annotation,
  whether the literal is on one line or on several; and none is produced when the annotation
  holds no object-type literal. The check returns in both cases.
\<close>

theorem finding_iff_object_literal:
  shows "(\<forall>k l. root_within ast k a \<and> occupies ast a l \<longrightarrow>
            (\<exists>f. checkMultilineLiteralInAnnotation U ast src (Some a) = Some [f] \<and>
                 f_node f = l)) \<and>
         ((\<forall>l. \<not> occupies ast a l) \<longrightarrow>
            checkMultilineLiteralInAnnotation U ast src (Some a) = Some [])"
proof -
  have one: "\<exists>f. checkMultilineLiteralInAnnotation U ast src (Some a) = Some [f] \<and> f_node f = l"
    if "root_within ast k a" "occupies ast a l" for k l
  proof -
    from check_returns[OF that(1)] obtain fs where
      fs: "checkMultilineLiteralInAnnotation U ast src (Some a) = Some fs" by blast
    from check_nodes[OF fs] flagged_occupied[OF that(2)] have "map f_node fs = [l]" by simp
    then obtain f where "fs = [f]" "f_node f = l" by (auto simp: map_eq_Cons_conv)
    with fs show ?thesis by blast
  qed
  have none: "checkMultilineLiteralInAnnotation U ast src (Some a) = Some []"
    if "\<forall>l. \<not> occupies ast a l"
    using flagged_cases[of ast a] that by (auto simp: check_unoccupied)
  show ?thesis using one none by blast
qed

theorem finding_iff_object_literal_witness:
  "root_within cfg_ast 4 4 \<and> occupies cfg_ast 4 5 \<and> single_line (cfg_ast 5) \<and>
   (\<exists>f. checkMultilineLiteralInAnnotation host_upper cfg_ast cfg_src (Some 4) = Some [f] \<and>
        f_node f = 5) \<and>
   (\<forall>l. \<not> occupies cfg_ast 3 l) \<and>
   checkMultilineLiteralInAnnotation host_upper cfg_ast cfg_src (Some 3) = Some []"
proof -
  have r: "root_within cfg_ast 4 4"
    by (simp add: cfg_ast_def tree_defs eval_nat_numeral)
  have o: "occupies cfg_ast 4 5"
    by (simp add: occupies_def cfg_ast_def tree_defs)
  have s: "single_line (cfg_ast 5)"
    by (simp add: single_line_def start_line_def end_line_def cfg_ast_def tree_defs)
  have n: "\<forall>l. \<not> occupies cfg_ast 3 l"
    by (simp add: occupies_def cfg_ast_def tree_defs)
  note inst4 = finding_iff_object_literal[where ast = cfg_ast and a = 4 and U = host_upper
      and src = cfg_src]
  note inst3 = finding_iff_object_literal[where ast = cfg_ast and a = 3 and U = host_upper
      and src = cfg_src]
  from inst4 r o have
    "\<exists>f. checkMultilineLiteralInAnnotation host_upper cfg_ast cfg_src (Some 4) = Some [f] \<and>
        f_node f = 5" by blast
  moreover from inst3 n have
    "checkMultilineLiteralInAnnotation host_upper cfg_ast cfg_src (Some 3) = Some []" by blast
  ultimately show ?thesis using r o s n by blast
qed

text \<open>
  Claim C2: a multiline object-type literal at an annotation site gives exactly one finding,
  keyed by the literal, and a literal nested in the member types of another literal is never
  flagged on its own. The visitor of a function reads the annotation of a parameter from the
  parameter node, or from the parameter of a parameter property. A parameter with a default
  value is an assignment pattern, and its annotation is on the identifier on the left: the
  visitor does not look there. For
  \<^verbatim>\<open>function f(opts: { a: string; b: number } = init) {}\<close> with the literal on four lines
  the pass over the tree returns no finding.
\<close>

theorem defaulted_parameter_not_reported:
  "1 \<in> set default_nodes \<and>
   is_function (typ_of default_ast 1) \<and> node_params (default_ast 1) = Some [3] \<and>
   typ_of default_ast 3 = ''AssignmentPattern'' \<and> node_parent (default_ast 4) = Some 3 \<and>
   typ_of default_ast 4 = ''Identifier'' \<and> node_typeAnnotation (default_ast 4) = Some 5 \<and>
   occupies default_ast 5 6 \<and> \<not> single_line (default_ast 6) \<and>
   lint host_upper default_ast [] default_nodes = Some []"
  by (simp add: occupies_def single_line_def start_line_def end_line_def
      default_ast_def default_nodes_def tree_defs type_sets visit_defs)

text \<open>The example is a tree, so the pass over it is the pass the remaining results are about.\<close>

lemma default_ast_is_tree: "tree default_ast default_nodes"
  by (simp add: tree_def parent_links_def children_def bindings_def opt_list_def
      is_site_type_def default_ast_def default_nodes_def tree_defs type_sets)

text \<open>
  For the annotations the visitors read, the pass over a tree returns, a literal occupying
  one of them is reported exactly once in the whole pass, a literal that is not at an
  annotation site is not reported, and in particular the literal of a member (a property
  signature of an enclosing literal) is not reported.
\<close>

theorem visited_annotation_reported_once:
  assumes tree: "tree ast nodes"
    and ends: "\<forall>b \<in> set (all_slots ast nodes). \<exists>k. root_within ast k b"
  shows "\<exists>fs. lint U ast src nodes = Some fs \<and>
           (\<forall>n a l. n \<in> set nodes \<and> a \<in> set (annotation_slots ast n) \<and> occupies ast a l
              \<longrightarrow> reports_of l fs = 1) \<and>
           (\<forall>l. \<not> annotation_site ast l \<longrightarrow> reports_of l fs = 0) \<and>
           (\<forall>l a m. node_parent (ast l) = Some a \<and> node_parent (ast a) = Some m \<and>
              typ_of ast m = ''TSPropertySignature'' \<and>
              parent_type ast m = Some ''TSTypeLiteral''
              \<longrightarrow> reports_of l fs = 0)"
proof -
  from lint_returns[OF ends] obtain fs where pass: "lint U ast src nodes = Some fs" by blast
  note links = tree_links[OF tree] and dist = all_slots_distinct[OF tree]
  have one: "reports_of l fs = 1"
    if "n \<in> set nodes" "a \<in> set (annotation_slots ast n)" "occupies ast a l" for n a l
    using exactly_once[OF pass links dist that] .
  have none: "reports_of l fs = 0" if "\<not> annotation_site ast l" for l
    using reported_site[OF pass links, of l] that by blast
  have nested: "reports_of l fs = 0"
    if "node_parent (ast l) = Some a" "node_parent (ast a) = Some m"
      "typ_of ast m = ''TSPropertySignature''" "parent_type ast m = Some ''TSTypeLiteral''"
    for l a m
    using none[of l] member_not_site[of ast l a m] that by blast
  show ?thesis using pass one none nested by blast
qed

theorem visited_annotation_reported_once_witness:
  "tree wrapper_ast wrapper_nodes \<and>
   (\<forall>b \<in> set (all_slots wrapper_ast wrapper_nodes). \<exists>k. root_within wrapper_ast k b) \<and>
   (\<exists>fs. lint host_upper wrapper_ast [] wrapper_nodes = Some fs \<and>
      reports_of 11 fs = 1 \<and> reports_of 14 fs = 0 \<and> \<not> single_line (wrapper_ast 11) \<and>
      \<not> single_line (wrapper_ast 14))"
proof -
  have tree: "tree wrapper_ast wrapper_nodes"
    by (simp add: tree_def parent_links_def children_def bindings_def opt_list_def
        is_site_type_def wrapper_ast_def wrapper_nodes_def tree_defs type_sets)
  have slots: "all_slots wrapper_ast wrapper_nodes = [10]"
    by (simp add: all_slots_def annotation_slots_def param_slot_def opt_list_def wrapper_ast_def
      wrapper_nodes_def tree_defs type_sets)
  have ends: "\<forall>b \<in> set (all_slots wrapper_ast wrapper_nodes). \<exists>k. root_within wrapper_ast k b"
  proof -
    have "root_within wrapper_ast 4 10"
      by (simp add: wrapper_ast_def tree_defs eval_nat_numeral)
    with slots show ?thesis by auto
  qed
  from visited_annotation_reported_once[OF tree ends, where U = host_upper and src = "[]"]
  obtain fs where pass: "lint host_upper wrapper_ast [] wrapper_nodes = Some fs"
    and one: "\<forall>n a l. n \<in> set wrapper_nodes \<and> a \<in> set (annotation_slots wrapper_ast n) \<and>
        occupies wrapper_ast a l \<longrightarrow> reports_of l fs = 1"
    and nested: "\<forall>l a m. node_parent (wrapper_ast l) = Some a \<and>
        node_parent (wrapper_ast a) = Some m \<and>
        typ_of wrapper_ast m = ''TSPropertySignature'' \<and>
        parent_type wrapper_ast m = Some ''TSTypeLiteral'' \<longrightarrow> reports_of l fs = 0"
    by blast
  have "8 \<in> set wrapper_nodes" by (simp add: wrapper_nodes_def)
  moreover have "10 \<in> set (annotation_slots wrapper_ast 8)"
    by (simp add: annotation_slots_def opt_list_def wrapper_ast_def tree_defs)
  moreover have "occupies wrapper_ast 10 11"
    by (simp add: occupies_def wrapper_ast_def tree_defs)
  ultimately have r1: "reports_of 11 fs = 1" using one by blast
  have "node_parent (wrapper_ast 14) = Some 13 \<and> node_parent (wrapper_ast 13) = Some 12 \<and>
      typ_of wrapper_ast 12 = ''TSPropertySignature'' \<and>
      parent_type wrapper_ast 12 = Some ''TSTypeLiteral''"
    by (simp add: wrapper_ast_def tree_defs)
  then have r0: "reports_of 14 fs = 0" using nested by blast
  have ml: "\<not> single_line (wrapper_ast 11) \<and> \<not> single_line (wrapper_ast 14)"
    by (simp add: single_line_def start_line_def end_line_def wrapper_ast_def tree_defs)
  show ?thesis using tree ends pass r1 r0 ml by blast
qed

text \<open>
  Claim C3: the object-type literal that is the right-hand side of a type alias, or the body
  of an interface declaration, gives no finding, and neither do the literals nested in the
  members of such a definition.
\<close>

theorem definitions_not_reported:
  assumes pass: "lint U ast src nodes = Some fs" and links: "parent_links ast nodes"
  shows "(\<forall>l d. node_parent (ast l) = Some d \<and>
            (typ_of ast d = ''TSTypeAliasDeclaration'' \<or> typ_of ast d = ''TSInterfaceDeclaration'')
            \<longrightarrow> reports_of l fs = 0) \<and>
         (\<forall>l a m. node_parent (ast l) = Some a \<and> node_parent (ast a) = Some m \<and>
            typ_of ast m = ''TSPropertySignature'' \<and>
            (parent_type ast m = Some ''TSTypeLiteral'' \<or>
             parent_type ast m = Some ''TSInterfaceBody'')
            \<longrightarrow> reports_of l fs = 0)"
proof -
  have body: "reports_of l fs = 0"
    if "node_parent (ast l) = Some d"
      "typ_of ast d = ''TSTypeAliasDeclaration'' \<or> typ_of ast d = ''TSInterfaceDeclaration''"
    for l d
  proof -
    from that have "\<not> annotation_site ast l" by (auto simp: annotation_site_def)
    then show ?thesis using reported_site[OF pass links, of l] by blast
  qed
  have nested: "reports_of l fs = 0"
    if "node_parent (ast l) = Some a" "node_parent (ast a) = Some m"
      "typ_of ast m = ''TSPropertySignature''"
      "parent_type ast m = Some ''TSTypeLiteral'' \<or>
       parent_type ast m = Some ''TSInterfaceBody''"
    for l a m
    using reported_site[OF pass links, of l] member_not_site[of ast l a m] that by blast
  show ?thesis using body nested by blast
qed

theorem definitions_not_reported_witness:
  "parent_links wrapper_ast wrapper_nodes \<and>
   (\<exists>fs. lint host_upper wrapper_ast [] wrapper_nodes = Some fs \<and>
      reports_of 3 fs = 0 \<and> reports_of 6 fs = 0)"
proof -
  have links: "parent_links wrapper_ast wrapper_nodes"
    by (simp add: parent_links_def children_def opt_list_def wrapper_ast_def wrapper_nodes_def
        tree_defs)
  have slots: "all_slots wrapper_ast wrapper_nodes = [10]"
    by (simp add: all_slots_def annotation_slots_def param_slot_def opt_list_def wrapper_ast_def
      wrapper_nodes_def tree_defs type_sets)
  have "\<forall>b \<in> set (all_slots wrapper_ast wrapper_nodes). \<exists>k. root_within wrapper_ast k b"
  proof -
    have "root_within wrapper_ast 4 10"
      by (simp add: wrapper_ast_def tree_defs eval_nat_numeral)
    with slots show ?thesis by auto
  qed
  from lint_returns[OF this] obtain fs where
    pass: "lint host_upper wrapper_ast [] wrapper_nodes = Some fs" by blast
  note inst = definitions_not_reported[OF pass links]
  have "node_parent (wrapper_ast 3) = Some 1 \<and>
      typ_of wrapper_ast 1 = ''TSTypeAliasDeclaration''"
    by (simp add: wrapper_ast_def tree_defs)
  then have a: "reports_of 3 fs = 0" using inst by blast
  have "node_parent (wrapper_ast 6) = Some 5 \<and> node_parent (wrapper_ast 5) = Some 4 \<and>
      typ_of wrapper_ast 4 = ''TSPropertySignature'' \<and>
      parent_type wrapper_ast 4 = Some ''TSTypeLiteral''"
    by (simp add: wrapper_ast_def tree_defs)
  then have b: "reports_of 6 fs = 0" using inst by blast
  show ?thesis using links pass a b by blast
qed

subsection \<open>The fix\<close>

text \<open>
  Claim C4: a fix that is produced is exactly two edits, the insertion of
  \<^verbatim>\<open>type <Name> = <literal text>;\<close> and a blank line at the first character of the
  insertion anchor, and the replacement of the range of the literal by \<^verbatim>\<open><Name>\<close>, with the
  derived name in both.
\<close>

theorem fix_is_two_edits:
  assumes "report_fix U ast src a l = Some (Some es)"
  shows "\<exists>anc. findInsertionPointAncestor ast a = Some (Some anc) \<and>
     es = [\<lparr>edit_range = (fst (node_range (ast anc)), fst (node_range (ast anc))),
            edit_text = js ''type '' @ deriveTypeName U ast a @ js '' = '' @ getText src ast l @ js '';'' @
                        [10, 10]\<rparr>,
           \<lparr>edit_range = node_range (ast l), edit_text = deriveTypeName U ast a\<rparr>]"
  using assms
  by (auto simp: report_fix_def Let_def insertTextBefore_def replaceText_def typeAliasString_def
      split: bind_splits option.splits)

theorem fix_is_two_edits_witness:
  "report_fix host_upper cfg_ast cfg_src 4 5 =
     Some (Some [\<lparr>edit_range = (0, 0),
                  edit_text = js ''type CfgType = { host: string; port: number };'' @
                              [10, 10]\<rparr>,
                 \<lparr>edit_range = (9, 39), edit_text = js ''CfgType''\<rparr>]) \<and>
   findInsertionPointAncestor cfg_ast 4 = Some (Some 1) \<and>
   deriveTypeName host_upper cfg_ast 4 = js ''CfgType'' \<and>
   getText cfg_src cfg_ast 5 = js ''{ host: string; port: number }''"
proof -
  have r: "report_fix host_upper cfg_ast cfg_src 4 5 =
     Some (Some [\<lparr>edit_range = (0, 0),
                  edit_text = js ''type CfgType = { host: string; port: number };'' @
                              [10, 10]\<rparr>,
                 \<lparr>edit_range = (9, 39), edit_text = js ''CfgType''\<rparr>])"
    by (simp add: cfg_ast_def cfg_src_def tree_defs type_sets pascal_defs name_defs loop_defs
        fix_defs)
  have n: "deriveTypeName host_upper cfg_ast 4 = js ''CfgType''"
    by (simp add: cfg_ast_def tree_defs type_sets pascal_defs name_defs)
  have g: "getText cfg_src cfg_ast 5 = js ''{ host: string; port: number }''"
    by (simp add: cfg_ast_def cfg_src_def tree_defs getText_def js_def)
  from fix_is_two_edits[OF r] obtain anc where
    "findInsertionPointAncestor cfg_ast 4 = Some (Some anc)" by blast
  moreover have "findInsertionPointAncestor cfg_ast 4 = Some (Some 1)"
    by (simp add: cfg_ast_def tree_defs type_sets loop_defs)
  ultimately show ?thesis using r n g by simp
qed

text \<open>
  Claim C5: when no insertion point is found the finding is still reported, without a fix,
  and the pass over the file goes on: it returns, it contains that finding, and it reports
  the literal of every occupied annotation of the file.
\<close>

theorem unresolved_anchor_keeps_finding:
  assumes occ: "occupies ast a l" and fail: "findInsertionPointAncestor ast a = Some None"
    and slot: "a \<in> set (all_slots ast nodes)"
    and tree: "\<forall>b \<in> set (all_slots ast nodes). \<exists>k. root_within ast k b"
  shows "checkMultilineLiteralInAnnotation U ast src (Some a) =
           Some [\<lparr>f_node = l, f_messageId = ''inlineType'', f_fix = None\<rparr>] \<and>
         (\<exists>fs. lint U ast src nodes = Some fs \<and>
            \<lparr>f_node = l, f_messageId = ''inlineType'', f_fix = None\<rparr> \<in> set fs \<and>
            map f_node fs = concat (map (flagged ast) (all_slots ast nodes)))"
proof -
  have c: "checkMultilineLiteralInAnnotation U ast src (Some a) =
           Some [\<lparr>f_node = l, f_messageId = ''inlineType'', f_fix = None\<rparr>]"
    using fail by (simp add: check_occupied[OF occ] report_fix_def Let_def)
  from lint_returns[OF tree] obtain fs where pass: "lint U ast src nodes = Some fs" by blast
  then have "check_all U ast src (all_slots ast nodes) = Some fs" by (simp add: lint_slots)
  from check_all_member[OF this slot c]
  have "\<lparr>f_node = l, f_messageId = ''inlineType'', f_fix = None\<rparr> \<in> set fs" by simp
  with c pass lint_nodes[OF pass] show ?thesis by blast
qed

theorem unresolved_anchor_keeps_finding_witness:
  "occupies call_ast 5 6 \<and> findInsertionPointAncestor call_ast 5 = Some None \<and>
   5 \<in> set (all_slots call_ast [0, 1, 2, 3, 4, 5, 6]) \<and>
   checkMultilineLiteralInAnnotation host_upper call_ast call_src (Some 5) =
     Some [\<lparr>f_node = 6, f_messageId = ''inlineType'', f_fix = None\<rparr>] \<and>
   (\<exists>fs. lint host_upper call_ast call_src [0, 1, 2, 3, 4, 5, 6] = Some fs \<and>
      \<lparr>f_node = 6, f_messageId = ''inlineType'', f_fix = None\<rparr> \<in> set fs \<and>
      map f_node fs = [6])"
proof -
  let ?nodes = "[0, 1, 2, 3, 4, 5, 6] :: ref list"
  have occ: "occupies call_ast 5 6"
    by (simp add: occupies_def call_ast_def tree_defs)
  have fail: "findInsertionPointAncestor call_ast 5 = Some None"
    by (simp add: call_ast_def tree_defs type_sets loop_defs)
  have slots: "all_slots call_ast ?nodes = [5]"
    by (simp add: all_slots_def annotation_slots_def param_slot_def opt_list_def call_ast_def
        tree_defs type_sets)
  have "root_within call_ast 5 5"
    by (simp add: call_ast_def tree_defs eval_nat_numeral)
  then have tree: "\<forall>b \<in> set (all_slots call_ast ?nodes). \<exists>k. root_within call_ast k b"
    unfolding slots by auto
  have slot: "5 \<in> set (all_slots call_ast ?nodes)" unfolding slots by simp
  have fl: "concat (map (flagged call_ast) (all_slots call_ast ?nodes)) = [6]"
    unfolding slots using flagged_occupied[OF occ] by simp
  from unresolved_anchor_keeps_finding[OF occ fail slot tree, where U = host_upper and src = call_src]
  show ?thesis unfolding fl using occ fail slot by blast
qed

subsection \<open>Names\<close>

text \<open>
  Claim C6: when none of the naming cases matches, or an exception is raised while deriving,
  the name is the fallback \<^verbatim>\<open>ExtractedType\<close>, and the finding is reported all the same, its
  fix using the fallback name. The cases are the seven \<^verbatim>\<open>if\<close>s of the source; the seventh is
  the parameter-property form of the parameter case.
\<close>

theorem fallback_name:
  shows "(node_parent (ast a) = None \<longrightarrow> deriveTypeName U ast a = js ''ExtractedType'') \<and>
         (\<forall>p. node_parent (ast a) = Some p \<and>
            ((case1 U ast a p = Inr None \<and> case2 U ast a p = Inr None \<and> case3 U ast a p = Inr None \<and>
              case4 U ast a p = Inr None \<and> case5 U ast a p = Inr None \<and> case6 U ast a p = Inr None \<and>
              case7 U ast a p = Inr None) \<or>
             (\<exists>e. try_block U ast a p = Inl e))
            \<longrightarrow> deriveTypeName U ast a = js ''ExtractedType'' \<and>
                (\<forall>l. occupies ast a l \<longrightarrow>
                   checkMultilineLiteralInAnnotation U ast src (Some a) =
                     findInsertionPointAncestor ast a \<bind>
                       (\<lambda>r. Some [\<lparr>f_node = l, f_messageId = ''inlineType'',
                                    f_fix = map_option
                                      (\<lambda>anc. [insertTextBefore ast anc
                                                 (typeAliasString (js ''ExtractedType'')
                                                    (getText src ast l)),
                                               replaceText ast l (js ''ExtractedType'')]) r\<rparr>])))"
proof -
  have chk: "checkMultilineLiteralInAnnotation U ast src (Some a) =
        findInsertionPointAncestor ast a \<bind>
          (\<lambda>r. Some [\<lparr>f_node = l, f_messageId = ''inlineType'',
                       f_fix = map_option
                         (\<lambda>anc. [insertTextBefore ast anc
                                    (typeAliasString (js ''ExtractedType'') (getText src ast l)),
                                  replaceText ast l (js ''ExtractedType'')]) r\<rparr>])"
    if "deriveTypeName U ast a = js ''ExtractedType''" "occupies ast a l" for l
    using that(1)
    by (cases "findInsertionPointAncestor ast a")
       (auto simp: check_occupied[OF that(2)] report_fix_def Let_def split: option.splits)
  have none: "deriveTypeName U ast a = js ''ExtractedType''" if "node_parent (ast a) = None"
    using that by (simp add: deriveTypeName_def)
  have nomatch: "deriveTypeName U ast a = js ''ExtractedType''"
    if "node_parent (ast a) = Some p"
      "case1 U ast a p = Inr None \<and> case2 U ast a p = Inr None \<and> case3 U ast a p = Inr None \<and>
       case4 U ast a p = Inr None \<and> case5 U ast a p = Inr None \<and> case6 U ast a p = Inr None \<and>
       case7 U ast a p = Inr None" for p
    using that by (simp add: deriveTypeName_def try_block_def)
  have thrown: "deriveTypeName U ast a = js ''ExtractedType''"
    if "node_parent (ast a) = Some p" "try_block U ast a p = Inl e" for p e
    using that by (simp add: deriveTypeName_def)
  show ?thesis using chk none nomatch thrown by blast
qed

theorem fallback_name_witness:
  "node_parent (destructure_ast 4) = Some 3 \<and>
   case1 host_upper destructure_ast 4 3 = Inr None \<and> case2 host_upper destructure_ast 4 3 = Inr None \<and>
   case3 host_upper destructure_ast 4 3 = Inr None \<and> case4 host_upper destructure_ast 4 3 = Inr None \<and>
   case5 host_upper destructure_ast 4 3 = Inr None \<and> case6 host_upper destructure_ast 4 3 = Inr None \<and>
   case7 host_upper destructure_ast 4 3 = Inr None \<and>
   deriveTypeName host_upper destructure_ast 4 = js ''ExtractedType'' \<and>
   checkMultilineLiteralInAnnotation host_upper destructure_ast destructure_src (Some 4) =
     Some [\<lparr>f_node = 5, f_messageId = ''inlineType'',
            f_fix = Some [\<lparr>edit_range = (0, 0),
                            edit_text = js ''type ExtractedType = { a: string };'' @
                                        [10, 10]\<rparr>,
                          \<lparr>edit_range = (13, 26), edit_text = js ''ExtractedType''\<rparr>]\<rparr>] \<and>
   node_parent (broken_ast 6) = Some 5 \<and> try_block host_upper broken_ast 6 5 = Inl TypeError \<and>
   deriveTypeName host_upper broken_ast 6 = js ''ExtractedType''"
proof -
  have p: "node_parent (destructure_ast 4) = Some 3"
    by (simp add: destructure_ast_def tree_defs)
  have c: "case1 host_upper destructure_ast 4 3 = Inr None \<and> case2 host_upper destructure_ast 4 3 = Inr None \<and>
      case3 host_upper destructure_ast 4 3 = Inr None \<and> case4 host_upper destructure_ast 4 3 = Inr None \<and>
      case5 host_upper destructure_ast 4 3 = Inr None \<and> case6 host_upper destructure_ast 4 3 = Inr None \<and>
      case7 host_upper destructure_ast 4 3 = Inr None"
    by (simp add: destructure_ast_def tree_defs type_sets name_defs)
  have occ: "occupies destructure_ast 4 5"
    by (simp add: occupies_def destructure_ast_def tree_defs)
  have anc: "findInsertionPointAncestor destructure_ast 4 = Some (Some 1)"
    by (simp add: destructure_ast_def tree_defs type_sets loop_defs)
  have edits: "insertTextBefore destructure_ast 1
        (typeAliasString (js ''ExtractedType'') (getText destructure_src destructure_ast 5)) =
      \<lparr>edit_range = (0, 0),
       edit_text = js ''type ExtractedType = { a: string };'' @ [10, 10]\<rparr> \<and>
      replaceText destructure_ast 5 (js ''ExtractedType'') =
      \<lparr>edit_range = (13, 26), edit_text = js ''ExtractedType''\<rparr>"
    by (simp add: destructure_ast_def destructure_src_def tree_defs fix_defs)
  have bp: "node_parent (broken_ast 6) = Some 5"
    by (simp add: broken_ast_def export_ast_def tree_defs)
  have bt: "try_block host_upper broken_ast 6 5 = Inl TypeError"
    by (simp add: broken_ast_def export_ast_def tree_defs type_sets pascal_defs name_defs)
  from fallback_name[where ast = destructure_ast and a = 4 and src = destructure_src
      and U = host_upper] p c occ
  have n1: "deriveTypeName host_upper destructure_ast 4 = js ''ExtractedType''"
    and k1: "checkMultilineLiteralInAnnotation host_upper destructure_ast destructure_src (Some 4) =
      findInsertionPointAncestor destructure_ast 4 \<bind>
        (\<lambda>r. Some [\<lparr>f_node = 5, f_messageId = ''inlineType'',
                     f_fix = map_option
                       (\<lambda>anc. [insertTextBefore destructure_ast anc
                                  (typeAliasString (js ''ExtractedType'')
                                     (getText destructure_src destructure_ast 5)),
                                replaceText destructure_ast 5 (js ''ExtractedType'')]) r\<rparr>])"
    by blast+
  from fallback_name[where ast = broken_ast and a = 6 and src = "[]" and U = host_upper] bp bt
  have n2: "deriveTypeName host_upper broken_ast 6 = js ''ExtractedType''" by blast
  show ?thesis using p c n1 n2 bp bt k1 anc edits by simp
qed

subsection \<open>The insertion point\<close>

text \<open>
  Claim C7: in the loop of the resolver, a target declaration whose parent is an export wrapper
  gives the wrapper, and an export wrapper whose declaration is a target gives itself.
\<close>

theorem export_wrapper_anchor:
  assumes "node_parent (ast c) = Some p"
  shows "(typ_of ast c \<in> targetAncestorTypes \<and> is_export (typ_of ast p) \<longrightarrow>
            ancestor_loop ast s c = Some (Some p)) \<and>
         (is_export (typ_of ast c) \<and> declaration_is_target ast c \<longrightarrow>
            ancestor_loop ast s c = Some (Some c))"
proof -
  have exp_valid: "t \<in> validParentContextTypes" if "is_export t" for t
    using that by (auto simp: type_sets)
  have a: "ancestor_loop ast s c = Some (Some p)"
    if "typ_of ast c \<in> targetAncestorTypes" "is_export (typ_of ast p)"
    using that assms exp_valid by (subst ancestor_loop.simps) simp
  have b: "ancestor_loop ast s c = Some (Some c)"
    if "is_export (typ_of ast c)" "declaration_is_target ast c"
    using that assms export_not_target by (subst ancestor_loop.simps) simp
  show ?thesis using a b by blast
qed

theorem export_wrapper_anchor_witness:
  "node_parent (export_ast 2) = Some 1 \<and> typ_of export_ast 2 \<in> targetAncestorTypes \<and>
   is_export (typ_of export_ast 1) \<and> ancestor_loop export_ast 6 2 = Some (Some 1) \<and>
   node_parent (export_ast 1) = Some 0 \<and> declaration_is_target export_ast 1 \<and>
   ancestor_loop export_ast 6 1 = Some (Some 1) \<and>
   findInsertionPointAncestor export_ast 6 = Some (Some 1)"
proof -
  have p2: "node_parent (export_ast 2) = Some 1" and p1: "node_parent (export_ast 1) = Some 0"
    by (simp_all add: export_ast_def tree_defs)
  have t2: "typ_of export_ast 2 \<in> targetAncestorTypes" and e1: "is_export (typ_of export_ast 1)"
    and d1: "declaration_is_target export_ast 1"
    by (simp_all add: export_ast_def tree_defs type_sets declaration_is_target_def)
  have f: "findInsertionPointAncestor export_ast 6 = Some (Some 1)"
    by (simp add: export_ast_def tree_defs type_sets loop_defs)
  from export_wrapper_anchor[of export_ast 2 1 6] p2 t2 e1
  have a: "ancestor_loop export_ast 6 2 = Some (Some 1)" by blast
  from export_wrapper_anchor[of export_ast 1 0 6] p1 e1 d1
  have b: "ancestor_loop export_ast 6 1 = Some (Some 1)" by blast
  show ?thesis using p2 p1 t2 e1 d1 f a b by blast
qed

subsection \<open>Names of return types and of destructured parameters\<close>





subsection \<open>Annotations inside a class body\<close>

text \<open>
  Claim C10 says that for an annotation inside a class body a resolved anchor is the class
  declaration or its export wrapper. A class declared in a \<^verbatim>\<open>case\<close> clause has a parent that
  is no statement container for the resolver, which then walks on: in
  \<^verbatim>\<open>function f(k) { switch (k) { case 1: class C { p: { a: string } } } }\<close> the anchor is
  the function declaration.
\<close>

theorem class_anchor_not_class:
  "class_property_annotation switch_ast 8 5 \<and>
   findInsertionPointAncestor switch_ast 8 = Some (Some 1) \<and>
   typ_of switch_ast 1 = ''FunctionDeclaration'' \<and> node_parent (switch_ast 5) = Some 4 \<and>
   typ_of switch_ast 4 = ''SwitchCase''"
  by (simp add: class_property_annotation_def up_def switch_ast_def tree_defs type_sets loop_defs)

text \<open>
  Claim C10, as the code has it: for the annotation of a class property or of a constructor
  parameter of a class declaration (an identifier, a pattern or a rest element, with or
  without a default value, plain or in a parameter property), the anchor is the class
  declaration, or its export wrapper, whenever the parent of the class declaration is a
  program, a block or an export wrapper; and whenever an anchor is found it is the class
  declaration or one of its ancestors, never a node inside the class body.
\<close>

theorem class_anchor:
  assumes "class_property_annotation ast a cls \<or> constructor_parameter_annotation ast a hs cls"
  shows "(\<forall>g. node_parent (ast cls) = Some g \<and> typ_of ast g \<in> validParentContextTypes \<longrightarrow>
            findInsertionPointAncestor ast a =
              Some (Some (if is_export (typ_of ast g) then g else cls))) \<and>
         (\<forall>r. findInsertionPointAncestor ast a = Some (Some r) \<longrightarrow>
            (\<exists>k. nth_ancestor ast k cls = Some r))"
proof -
  from assms class_property_loop[of ast a cls] constructor_parameter_loop[of ast a hs cls]
  have f: "findInsertionPointAncestor ast a = ancestor_loop ast a cls"
    and ta: "typ_of ast a = ''TSTypeAnnotation''" and tc: "typ_of ast cls = ''ClassDeclaration''"
    by blast+
  have valid: "findInsertionPointAncestor ast a =
      Some (Some (if is_export (typ_of ast g) then g else cls))"
    if "node_parent (ast cls) = Some g" "typ_of ast g \<in> validParentContextTypes" for g
    unfolding f using that tc
    by (subst ancestor_loop.simps) (simp add: targetAncestorTypes_def)
  have chain: "\<exists>k. nth_ancestor ast k cls = Some r"
    if "findInsertionPointAncestor ast a = Some (Some r)" for r
  proof -
    from that f have "ancestor_loop ast a cls = Some (Some r)" by simp
    from loop_on_chain[OF this] have
      "(r = a \<and> typ_of ast a \<in> targetAncestorTypes) \<or> (\<exists>k. nth_ancestor ast k cls = Some r)"
      by (simp add: on_chain_def)
    moreover have "typ_of ast a \<notin> targetAncestorTypes" using ta by (simp add: type_sets)
    ultimately show ?thesis by blast
  qed
  show ?thesis using valid chain by blast
qed

theorem class_anchor_witness:
  "class_property_annotation class_ast 5 1 \<and> node_parent (class_ast 1) = Some 0 \<and>
   typ_of class_ast 0 \<in> validParentContextTypes \<and>
   findInsertionPointAncestor class_ast 5 = Some (Some 1) \<and>
   constructor_parameter_annotation ctor_ast 7 [6, 5] 1 \<and> node_parent (ctor_ast 1) = Some 0 \<and>
   typ_of ctor_ast 0 \<in> validParentContextTypes \<and>
   findInsertionPointAncestor ctor_ast 7 = Some (Some 1) \<and>
   constructor_parameter_annotation pattern_ctor_ast 6 [5] 1 \<and>
   node_parent (pattern_ctor_ast 1) = Some 0 \<and>
   typ_of pattern_ctor_ast 0 \<in> validParentContextTypes \<and>
   findInsertionPointAncestor pattern_ctor_ast 6 = Some (Some 1) \<and>
   class_property_annotation switch_ast 8 5 \<and>
   findInsertionPointAncestor switch_ast 8 = Some (Some 1) \<and>
   (\<exists>k. nth_ancestor switch_ast k 5 = Some 1)"
proof -
  have c: "class_property_annotation class_ast 5 1" "node_parent (class_ast 1) = Some 0"
    "typ_of class_ast 0 \<in> validParentContextTypes" "\<not> is_export (typ_of class_ast 0)"
    by (simp_all add: class_property_annotation_def up_def class_ast_def tree_defs type_sets)
  from class_anchor[where ast = class_ast and a = 5 and cls = 1 and hs = "[]"] c
  have a: "findInsertionPointAncestor class_ast 5 = Some (Some 1)" by auto
  have d: "constructor_parameter_annotation ctor_ast 7 [6, 5] 1"
    "node_parent (ctor_ast 1) = Some 0"
    "typ_of ctor_ast 0 \<in> validParentContextTypes" "\<not> is_export (typ_of ctor_ast 0)"
    by (simp_all add: constructor_parameter_annotation_def parameter_types_def up_def
        ctor_ast_def tree_defs type_sets)
  from class_anchor[where ast = ctor_ast and a = 7 and cls = 1 and hs = "[6, 5]"] d
  have b: "findInsertionPointAncestor ctor_ast 7 = Some (Some 1)" by auto
  have e: "constructor_parameter_annotation pattern_ctor_ast 6 [5] 1"
    "node_parent (pattern_ctor_ast 1) = Some 0"
    "typ_of pattern_ctor_ast 0 \<in> validParentContextTypes"
    "\<not> is_export (typ_of pattern_ctor_ast 0)"
    by (simp_all add: constructor_parameter_annotation_def parameter_types_def up_def
        pattern_ctor_ast_def tree_defs type_sets)
  from class_anchor[where ast = pattern_ctor_ast and a = 6 and cls = 1 and hs = "[5]"] e
  have p: "findInsertionPointAncestor pattern_ctor_ast 6 = Some (Some 1)" by auto
  have s: "class_property_annotation switch_ast 8 5"
    "findInsertionPointAncestor switch_ast 8 = Some (Some 1)"
    by (simp_all add: class_property_annotation_def up_def switch_ast_def tree_defs type_sets
        loop_defs)
  from class_anchor[where ast = switch_ast and a = 8 and cls = 5 and hs = "[]"] s
  have k: "\<exists>k. nth_ancestor switch_ast k 5 = Some 1" by blast
  show ?thesis using c a d b e p s k by blast
qed

end
